theory Spec2Isabelle
  imports Complex_Main "HOL-Library.Multiset"
begin

section \<open>The three tables of attendance.db\<close>

text \<open>
  \<^verbatim>\<open>members(user_id TEXT PRIMARY KEY, display_name TEXT, role TEXT DEFAULT 'Raider',
  first_seen INTEGER, last_seen INTEGER)\<close>. The two text columns are nullable, so they are
  options here; the readers of the table fall back on \<^verbatim>\<open>||\<close> for them.
\<close>

record member =
  user_id :: string
  display_name :: "string option"
  role :: "string option"
  first_seen :: int
  last_seen :: int

text \<open>
  \<^verbatim>\<open>snapshots(id INTEGER PRIMARY KEY AUTOINCREMENT, ts, guild_id, channel_id)\<close>.
  The column \<^verbatim>\<open>id\<close> is called \<open>sid\<close>, since \<open>id\<close> is the identity function of HOL.
\<close>

record snapshot =
  sid :: nat
  ts :: int
  guild_id :: string
  channel_id :: string

text \<open>
  A row of \<^verbatim>\<open>presence(snapshot_id, user_id, PRIMARY KEY (snapshot_id, user_id))\<close> is a
  pair. Tables are lists in insertion (rowid) order; \<open>seq\<close> is the counter that
  AUTOINCREMENT keeps in \<^verbatim>\<open>sqlite_sequence\<close>: the largest id ever handed out.
\<close>

record store =
  members :: "member list"
  snapshots :: "snapshot list"
  presence :: "(nat \<times> string) list"
  seq :: nat

definition empty_store :: store where
  "empty_store = \<lparr>members = [], snapshots = [], presence = [], seq = 0\<rparr>"

datatype error = ConstraintViolation | StorageFailure | AdapterFailure

section \<open>The prepared write statements\<close>

text \<open>\<^verbatim>\<open>INSERT INTO snapshots (ts, guild_id, channel_id) VALUES (?, ?, ?)\<close>; the second
  component is \<^verbatim>\<open>info.lastInsertRowid\<close>.\<close>

definition insertSnapshot :: "store \<Rightarrow> int \<Rightarrow> string \<Rightarrow> string \<Rightarrow> store \<times> nat" where
  "insertSnapshot st t g c =
     (let i = Suc (seq st)
      in (st\<lparr>snapshots := snapshots st @ [\<lparr>sid = i, ts = t, guild_id = g, channel_id = c\<rparr>],
              seq := i\<rparr>, i))"

text \<open>\<^verbatim>\<open>INSERT OR IGNORE INTO presence (snapshot_id, user_id) VALUES (?, ?)\<close>: a row that
  collides with the primary key is skipped without an error; a row whose snapshot does not
  exist violates the foreign key, which OR IGNORE does not cover.\<close>

definition insertPresence :: "store \<Rightarrow> nat \<Rightarrow> string \<Rightarrow> error + store" where
  "insertPresence st s u =
     (if (s, u) \<in> set (presence st) then Inr st
      else if s \<notin> sid ` set (snapshots st) then Inl ConstraintViolation
      else Inr (st\<lparr>presence := presence st @ [(s, u)]\<rparr>))"

text \<open>The upsert: a new \<^verbatim>\<open>user_id\<close> is inserted with \<^verbatim>\<open>COALESCE(@role,'Raider')\<close> and
  both timestamps \<^verbatim>\<open>@ts\<close>; on a conflict only \<^verbatim>\<open>display_name\<close> and \<^verbatim>\<open>last_seen\<close>
  are taken from the new values.\<close>

definition upsertMember :: "store \<Rightarrow> string \<Rightarrow> string \<Rightarrow> string option \<Rightarrow> int \<Rightarrow> store" where
  "upsertMember st u dn r t =
     (if u \<in> user_id ` set (members st)
      then st\<lparr>members := map (\<lambda>m. if user_id m = u
                                    then m\<lparr>display_name := Some dn, last_seen := t\<rparr>
                                    else m) (members st)\<rparr>
      else st\<lparr>members := members st @
                [\<lparr>user_id = u, display_name = Some dn,
                  role = Some (case r of None \<Rightarrow> ''Raider'' | Some x \<Rightarrow> x),
                  first_seen = t, last_seen = t\<rparr>]\<rparr>)"

section \<open>The sampling cycle\<close>

text \<open>What the cycle reads of a \<^verbatim>\<open>GuildMember\<close>: \<^verbatim>\<open>gm.user.id\<close>, \<^verbatim>\<open>gm.displayName\<close>
  and \<^verbatim>\<open>gm.user.username\<close>; the two names may be null.\<close>

record guild_member =
  gm_id :: string
  gm_displayName :: "string option"
  gm_username :: "string option"

text \<open>\<^verbatim>\<open>a || b\<close> on a nullable string: null and the empty string are falsy.\<close>

definition or_else :: "string option \<Rightarrow> string \<Rightarrow> string" where
  "or_else a b = (case a of None \<Rightarrow> b | Some s \<Rightarrow> if s = [] then b else s)"

definition displayName :: "guild_member \<Rightarrow> string" where
  "displayName gm = or_else (gm_displayName gm) (or_else (gm_username gm) (gm_id gm))"

text \<open>The outcome of fetching the guild and the channel: the fetch throws, the channel is
  missing or not voice based, or it is a voice channel with its members.\<close>

datatype fetched = FetchError | NotVoice | Voice "guild_member list"

text \<open>What the cycle writes to the console.\<close>

datatype outcome = Saved nat | Warned | Failed error

text \<open>
  The process configuration. The calendar fields are what the source gets from dayjs and
  the host: the local year and zero-based month of the current instant, the epoch
  milliseconds of the first and last instant of a local month, and the reading of a date
  string that is not of the form the month keys produce.
\<close>

record env =
  GUILD_ID :: string
  VOICE_CHANNEL_ID :: string
  now_local :: "int \<times> int"
  startOfMonth :: "int \<Rightarrow> int \<Rightarrow> int"
  endOfMonth :: "int \<Rightarrow> int \<Rightarrow> int"
  parseOther :: "string \<Rightarrow> (int \<times> int) option"

text \<open>
  A write can fail under the program (disk full, I/O error, a lock). The statements of
  one transaction are numbered in the order they run, 0 being BEGIN, and \<open>F k\<close> says
  that statement \<open>k\<close> fails. The loop over \<^verbatim>\<open>channel.members\<close>: upsert, then presence.
\<close>

fun insertMembers ::
  "(nat \<Rightarrow> bool) \<Rightarrow> nat \<Rightarrow> nat \<Rightarrow> int \<Rightarrow> guild_member list \<Rightarrow> store \<Rightarrow> error + (store \<times> nat)" where
  "insertMembers F k snapshotId t [] st = Inr (st, k)"
| "insertMembers F k snapshotId t (gm # gms) st =
     (if F k then Inl StorageFailure
      else let st1 = upsertMember st (gm_id gm) (displayName gm) (Some ''Raider'') t
           in if F (k + 1) then Inl StorageFailure
              else (case insertPresence st1 snapshotId (gm_id gm) of
                      Inl e \<Rightarrow> Inl e
                    | Inr st2 \<Rightarrow> insertMembers F (k + 2) snapshotId t gms st2))"

text \<open>The function handed to \<^verbatim>\<open>db.transaction\<close>.\<close>

definition insert_body ::
  "env \<Rightarrow> (nat \<Rightarrow> bool) \<Rightarrow> int \<Rightarrow> guild_member list \<Rightarrow> store \<Rightarrow> error + (store \<times> nat)" where
  "insert_body e F t gms st =
     (if F 1 then Inl StorageFailure
      else let (st1, snapshotId) = insertSnapshot st t (GUILD_ID e) (VOICE_CHANNEL_ID e)
           in insertMembers F 2 snapshotId t gms st1)"

text \<open>\<^verbatim>\<open>db.transaction(fn)\<close>: BEGIN, the function, COMMIT; when any of them throws, the
  transaction is rolled back and the exception is thrown again.\<close>

definition transaction ::
  "(nat \<Rightarrow> bool) \<Rightarrow> (store \<Rightarrow> error + (store \<times> nat)) \<Rightarrow> store \<Rightarrow> store \<times> (error + unit)" where
  "transaction F body st =
     (if F 0 then (st, Inl StorageFailure)
      else (case body st of
              Inl e \<Rightarrow> (st, Inl e)
            | Inr (st', k) \<Rightarrow> if F k then (st, Inl StorageFailure) else (st', Inr ())))"

definition sampleVoiceChannel ::
  "env \<Rightarrow> (nat \<Rightarrow> bool) \<Rightarrow> int \<Rightarrow> fetched \<Rightarrow> store \<Rightarrow> store \<times> outcome" where
  "sampleVoiceChannel e F t channel st =
     (case channel of
        FetchError \<Rightarrow> (st, Failed AdapterFailure)
      | NotVoice \<Rightarrow> (st, Warned)
      | Voice gms \<Rightarrow>
          (case transaction F (insert_body e F t gms) st of
             (st', Inl err) \<Rightarrow> (st', Failed err)
           | (st', Inr _) \<Rightarrow> (st', Saved (length gms))))"

text \<open>One occupant of a cycle that meets no failure, and the whole write of such a cycle:
  the state that \<open>recordSnapshot\<close> of the store contract stands for.\<close>

definition addOccupant :: "nat \<Rightarrow> int \<Rightarrow> store \<Rightarrow> guild_member \<Rightarrow> store" where
  "addOccupant snapshotId t st gm =
     (case insertPresence (upsertMember st (gm_id gm) (displayName gm) (Some ''Raider'') t)
             snapshotId (gm_id gm) of
        Inl _ \<Rightarrow> st
      | Inr st2 \<Rightarrow> st2)"

definition recordSnapshot :: "env \<Rightarrow> store \<Rightarrow> int \<Rightarrow> guild_member list \<Rightarrow> store" where
  "recordSnapshot e st t gms =
     (let (st1, snapshotId) = insertSnapshot st t (GUILD_ID e) (VOICE_CHANNEL_ID e)
      in foldl (addOccupant snapshotId t) st1 gms)"

section \<open>Calendar months\<close>

text \<open>
  A dayjs object is reduced to what the program reads of it: the local year and the
  zero-based month, or \<open>None\<close> for an invalid date. dayjs and the Date object are
  libraries outside the program; the definitions follow their published behaviour: dayjs
  hands the parts of a date string to \<^verbatim>\<open>new Date(year, month, day)\<close>, and that constructor
  reads a year from 0 to 99 as 1900 plus that year and brings a month outside 0..11 into
  range by carrying into the year.
\<close>

type_synonym dayjs = "(int \<times> int) option"

definition MakeFullYear :: "int \<Rightarrow> int" where
  "MakeFullYear y = (if 0 \<le> y \<and> y \<le> 99 then 1900 + y else y)"

definition MakeDay :: "int \<Rightarrow> int \<Rightarrow> int \<times> int" where
  "MakeDay y m = (y + m div 12, m mod 12)"

definition digit_of :: "char \<Rightarrow> nat option" where
  "digit_of c = map_of (zip ''0123456789'' [0, 1, 2, 3, 4, 5, 6, 7, 8, 9]) c"

definition is_digit :: "char \<Rightarrow> bool" where
  "is_digit c = (digit_of c \<noteq> None)"

definition number_of :: "string \<Rightarrow> int" where
  "number_of s = int (foldl (\<lambda>n c. 10 * n + (case digit_of c of None \<Rightarrow> 0 | Some d \<Rightarrow> d)) 0 s)"

text \<open>
  \<^verbatim>\<open>dayjs(s)\<close> on a string. A string made of four digits, a hyphen, two digits and
  \<^verbatim>\<open>-01\<close> (a month key with the day the program appends) matches the parse expression of
  dayjs with year, month and day, and becomes \<^verbatim>\<open>new Date(year, month - 1, 1)\<close>. What
  dayjs and the engine make of any other string is left to \<open>parseOther\<close>.
\<close>

definition dayjs_parse :: "env \<Rightarrow> string \<Rightarrow> dayjs" where
  "dayjs_parse e s =
     (if length s = 10 \<and> list_all is_digit (take 4 s) \<and> s ! 4 = CHR ''-''
         \<and> list_all is_digit (take 2 (drop 5 s)) \<and> drop 7 s = ''-01''
      then Some (MakeDay (MakeFullYear (number_of (take 4 s))) (number_of (take 2 (drop 5 s)) - 1))
      else parseOther e s)"

text \<open>\<^verbatim>\<open>.subtract(1, 'month')\<close> is \<^verbatim>\<open>setMonth(month - 1)\<close> on the first day of the month,
  followed by the day, which does not touch year and month any more.\<close>

definition subtract_month :: "dayjs \<Rightarrow> dayjs" where
  "subtract_month d = (case d of None \<Rightarrow> None | Some (y, m) \<Rightarrow> Some (MakeDay y (m - 1)))"

fun show_nat :: "nat \<Rightarrow> string" where
  "show_nat n = (if n < 10 then [''0123456789'' ! n]
                 else show_nat (n div 10) @ [''0123456789'' ! (n mod 10)])"

declare show_nat.simps [simp del]

definition show_int :: "int \<Rightarrow> string" where
  "show_int i = (if i < 0 then CHR ''-'' # show_nat (nat (- i)) else show_nat (nat i))"

definition padStart :: "nat \<Rightarrow> string \<Rightarrow> string" where
  "padStart n s = replicate (n - length s) CHR ''0'' @ s"

text \<open>\<^verbatim>\<open>.format('YYYY-MM')\<close>: year padded to four, month to two characters.\<close>

definition format_YYYY_MM :: "dayjs \<Rightarrow> string" where
  "format_YYYY_MM d =
     (case d of
        None \<Rightarrow> ''Invalid Date''
      | Some (y, m) \<Rightarrow> padStart 4 (show_int y) @ ''-'' @ padStart 2 (show_int (m + 1)))"

text \<open>A JavaScript string argument that may be undefined; undefined and \<^verbatim>\<open>''\<close> are falsy.\<close>

definition truthy :: "string option \<Rightarrow> bool" where
  "truthy a = (case a of None \<Rightarrow> False | Some s \<Rightarrow> s \<noteq> [])"

definition base_of :: "env \<Rightarrow> string option \<Rightarrow> dayjs" where
  "base_of e ym = (if truthy ym then dayjs_parse e (the ym @ ''-01'') else Some (now_local e))"

text \<open>\<open>None\<close> stands for the bounds of an invalid date, which are both NaN.\<close>

definition monthBounds :: "env \<Rightarrow> string option \<Rightarrow> (int \<times> int) option" where
  "monthBounds e ym =
     (case base_of e ym of
        None \<Rightarrow> None
      | Some (y, m) \<Rightarrow> Some (startOfMonth e y m, endOfMonth e y m))"

definition lastMonthYM :: "env \<Rightarrow> string option \<Rightarrow> string" where
  "lastMonthYM e ym = format_YYYY_MM (subtract_month (base_of e ym))"

section \<open>The read statements\<close>

text \<open>The WHERE clause of both range queries. A NaN bound is bound as NULL, and a
  comparison with NULL selects no row.\<close>

definition in_range :: "(int \<times> int) option \<Rightarrow> string \<Rightarrow> string \<Rightarrow> snapshot \<Rightarrow> bool" where
  "in_range b c g s =
     (case b of
        None \<Rightarrow> False
      | Some (startMs, endMs) \<Rightarrow>
          startMs \<le> ts s \<and> ts s \<le> endMs \<and> channel_id s = c \<and> guild_id s = g)"

definition qTotalSnapshotsInRange :: "store \<Rightarrow> (int \<times> int) option \<Rightarrow> string \<Rightarrow> string \<Rightarrow> nat" where
  "qTotalSnapshotsInRange st b c g = length (filter (in_range b c g) (snapshots st))"

text \<open>The \<^verbatim>\<open>user_id\<close> column of \<^verbatim>\<open>presence p JOIN snapshots s ON s.id = p.snapshot_id\<close>
  under the WHERE clause, one entry per joined row.\<close>

definition joined_users :: "store \<Rightarrow> (int \<times> int) option \<Rightarrow> string \<Rightarrow> string \<Rightarrow> string list" where
  "joined_users st b c g =
     concat (map (\<lambda>p. map (\<lambda>s. snd p)
                        (filter (\<lambda>s. sid s = fst p \<and> in_range b c g s) (snapshots st)))
                 (presence st))"

text \<open>\<^verbatim>\<open>GROUP BY p.user_id\<close> with \<^verbatim>\<open>COUNT(*)\<close>: one row per user of the join.\<close>

definition qPresenceCountsInRange ::
  "store \<Rightarrow> (int \<times> int) option \<Rightarrow> string \<Rightarrow> string \<Rightarrow> (string \<times> nat) list" where
  "qPresenceCountsInRange st b c g =
     (let us = joined_users st b c g in map (\<lambda>u. (u, count_list us u)) (remdups us))"

definition qMembers :: "store \<Rightarrow> member list" where
  "qMembers st = members st"

section \<open>Attendance and the summary\<close>

record attendance =
  totalN :: nat
  presentMap :: "string \<rightharpoonup> nat"

text \<open>\<^verbatim>\<open>new Map(rows)\<close> sets the entries in order, so a later entry of a key would win.\<close>

definition computeAttendance :: "env \<Rightarrow> store \<Rightarrow> string option \<Rightarrow> attendance" where
  "computeAttendance e st ym =
     (let b = monthBounds e ym;
          total = qTotalSnapshotsInRange st b (VOICE_CHANNEL_ID e) (GUILD_ID e);
          presentRows = qPresenceCountsInRange st b (VOICE_CHANNEL_ID e) (GUILD_ID e)
      in \<lparr>totalN = total, presentMap = map_of (rev presentRows)\<rparr>)"

text \<open>
  A percentage is the quotient of two row counts. It is a rational here; the program
  holds the nearest double, which compares with 0.5, with 0.75 and with the quotient of
  another count by the same total as the rational does, for counts below \<open>2 ^ 52\<close>.
\<close>

record month_stat =
  ym :: string
  present :: nat
  total_snapshots :: nat
  pct :: "rat option"

record flags =
  under50 :: bool
  under75 :: bool

record row =
  userId :: string
  name :: string
  row_role :: string
  thisMonth :: month_stat
  lastMonth :: month_stat
  flags :: flags

record summary =
  sum_ym :: string
  sum_ymPrev :: string
  totals :: "nat \<times> nat"
  rows :: "row list"
  below50 :: "string list"
  below75 :: "string list"

definition get_or_0 :: "(string \<rightharpoonup> nat) \<Rightarrow> string \<Rightarrow> nat" where
  "get_or_0 m u = (case m u of None \<Rightarrow> 0 | Some n \<Rightarrow> n)"

definition pct_of :: "nat \<Rightarrow> nat \<Rightarrow> rat option" where
  "pct_of p t = (if t \<noteq> 0 then Some (of_nat p / of_nat t) else None)"

definition pct_below :: "rat option \<Rightarrow> rat \<Rightarrow> bool" where
  "pct_below p x = (case p of None \<Rightarrow> False | Some q \<Rightarrow> q < x)"

text \<open>The function mapped over the members.\<close>

definition make_row :: "string \<Rightarrow> string \<Rightarrow> attendance \<Rightarrow> attendance \<Rightarrow> member \<Rightarrow> row" where
  "make_row ym0 ymPrev tm lm m =
     (let presentThis = get_or_0 (presentMap tm) (user_id m);
          presentLast = get_or_0 (presentMap lm) (user_id m);
          pctThis = pct_of presentThis (totalN tm);
          pctLast = pct_of presentLast (totalN lm)
      in \<lparr>userId = user_id m,
          name = or_else (display_name m) (user_id m),
          row_role = or_else (role m) ''Raider'',
          thisMonth = \<lparr>ym = ym0, present = presentThis, total_snapshots = totalN tm, pct = pctThis\<rparr>,
          lastMonth = \<lparr>ym = ymPrev, present = presentLast, total_snapshots = totalN lm, pct = pctLast\<rparr>,
          flags = \<lparr>under50 = pct_below pctThis (1 / 2), under75 = pct_below pctThis (3 / 4)\<rparr>\<rparr>)"

text \<open>\<^verbatim>\<open>(b.thisMonth.pct ?? -1) - (a.thisMonth.pct ?? -1)\<close>\<close>

definition pct_or_minus1 :: "row \<Rightarrow> rat" where
  "pct_or_minus1 r = (case pct (thisMonth r) of None \<Rightarrow> - 1 | Some p \<Rightarrow> p)"

definition compareRows :: "row \<Rightarrow> row \<Rightarrow> rat" where
  "compareRows a b = pct_or_minus1 b - pct_or_minus1 a"

text \<open>
  \<^verbatim>\<open>Array.prototype.sort\<close> with a comparator is stable: elements that compare equal keep
  their order. For a comparator that is a difference of keys this fixes the result, which
  insertion from the right computes: an element goes before the first one it does not
  have to follow.
\<close>

fun insert_sorted :: "('a \<Rightarrow> 'a \<Rightarrow> rat) \<Rightarrow> 'a \<Rightarrow> 'a list \<Rightarrow> 'a list" where
  "insert_sorted cmp x [] = [x]"
| "insert_sorted cmp x (y # ys) =
     (if cmp x y \<le> 0 then x # y # ys else y # insert_sorted cmp x ys)"

definition array_sort :: "('a \<Rightarrow> 'a \<Rightarrow> rat) \<Rightarrow> 'a list \<Rightarrow> 'a list" where
  "array_sort cmp xs = foldr (insert_sorted cmp) xs []"

definition summaryPayload :: "env \<Rightarrow> store \<Rightarrow> string option \<Rightarrow> summary" where
  "summaryPayload e st ymCurrent =
     (let ym0 = (if truthy ymCurrent then the ymCurrent else format_YYYY_MM (Some (now_local e)));
          ymPrev = lastMonthYM e (Some ym0);
          tm = computeAttendance e st (Some ym0);
          lm = computeAttendance e st (Some ymPrev);
          rs = array_sort compareRows (map (make_row ym0 ymPrev tm lm) (qMembers st))
      in \<lparr>sum_ym = ym0,
          sum_ymPrev = ymPrev,
          totals = (totalN tm, totalN lm),
          rows = rs,
          below50 = map name (filter (\<lambda>r. under50 (flags r)) rs),
          below75 = map name (filter (\<lambda>r. under75 (flags r) \<and> \<not> under50 (flags r)) rs)\<rparr>)"

section \<open>The web API\<close>

text \<open>A character of a string stands for a code unit up to 255; the white space among
  them is tab, line feed, vertical tab, form feed, carriage return, space and no-break
  space.\<close>

definition is_space :: "char \<Rightarrow> bool" where
  "is_space c = (c \<in> set [CHR '' '', CHR 0x09, CHR 0x0A, CHR 0x0B, CHR 0x0C, CHR 0x0D, CHR 0xA0])"

text \<open>\<^verbatim>\<open>String.prototype.trim\<close>\<close>

definition trim :: "string \<Rightarrow> string" where
  "trim s = rev (dropWhile is_space (rev (dropWhile is_space s)))"

text \<open>\<^verbatim>\<open>GET /api/summary\<close>; \<open>month\<close> is \<^verbatim>\<open>req.query.month\<close>, absent or a string.\<close>

definition api_summary :: "env \<Rightarrow> store \<Rightarrow> string option \<Rightarrow> summary" where
  "api_summary e st month =
     (let s = trim (case month of None \<Rightarrow> [] | Some m \<Rightarrow> m)
      in summaryPayload e st (if s = [] then None else Some s))"

text \<open>A value of a JSON body.\<close>

datatype json_value =
  JNull | JBool bool | JNumber rat | JString string
  | JArray "json_value list" | JObject "(string \<times> json_value) list"

text \<open>\<^verbatim>\<open>POST /api/members/role\<close>. The request is what the handler takes out of
  \<^verbatim>\<open>req.body || {}\<close>: each of the two fields is undefined or a JSON value.\<close>

record role_request =
  body_userId :: "json_value option"
  body_role :: "json_value option"

text \<open>\<^verbatim>\<open>!v\<close>: undefined, null, false, 0 and the empty string are falsy; every array
  and object is truthy.\<close>

definition falsy :: "json_value option \<Rightarrow> bool" where
  "falsy v =
     (case v of
        None \<Rightarrow> True
      | Some JNull \<Rightarrow> True
      | Some (JBool b) \<Rightarrow> \<not> b
      | Some (JNumber n) \<Rightarrow> n = 0
      | Some (JString s) \<Rightarrow> s = []
      | Some (JArray xs) \<Rightarrow> False
      | Some (JObject kvs) \<Rightarrow> False)"

text \<open>The answer: the two JSON bodies of the handler, or the error page that Express
  sends with status 500 when an exception leaves the handler.\<close>

datatype reply = Error_reply string | Ok_true | Uncaught_exception

record response =
  status :: nat
  json :: reply

text \<open>\<^verbatim>\<open>UPDATE members SET role=? WHERE user_id=?\<close> with the role \<open>r\<close> and a user id that is
  compared as the text \<open>u\<close>.\<close>

definition update_role :: "store \<Rightarrow> string \<Rightarrow> string \<Rightarrow> store" where
  "update_role st r u =
     st\<lparr>members := map (\<lambda>m. if user_id m = u then m\<lparr>role := Some r\<rparr> else m) (members st)\<rparr>"

text \<open>
  Binding \<^verbatim>\<open>userId\<close> to the second parameter of the statement. A string is compared with
  the column \<^verbatim>\<open>user_id\<close> as it is. What the database driver makes of a truthy value that
  is not a string is left to \<open>bind\<close>: the text with which the column is compared in the
  end (a number is bound as a number and compared as its text), or \<open>None\<close> when binding
  throws (as for a boolean).
\<close>

definition bound_userId :: "(json_value \<Rightarrow> string option) \<Rightarrow> json_value \<Rightarrow> string option" where
  "bound_userId bind v = (case v of JString u \<Rightarrow> Some u | _ \<Rightarrow> bind v)"

definition string_of :: "json_value \<Rightarrow> string" where
  "string_of v = (case v of JString r \<Rightarrow> r | _ \<Rightarrow> [])"

text \<open>The handler. \<open>fails\<close> says that the UPDATE itself throws (a storage failure); then,
  as when binding throws, the store stays as it is and Express answers with status 500.\<close>

definition post_role ::
  "(json_value \<Rightarrow> string option) \<Rightarrow> bool \<Rightarrow> store \<Rightarrow> role_request \<Rightarrow> store \<times> response" where
  "post_role bind fails st body =
     (if falsy (body_userId body) \<or> falsy (body_role body)
         \<or> body_role body \<notin> set [Some (JString ''Raider''), Some (JString ''Reserve'')]
      then (st, \<lparr>status = 400, json = Error_reply ''Provide userId and role in {Raider, Reserve}''\<rparr>)
      else (case bound_userId bind (the (body_userId body)) of
              None \<Rightarrow> (st, \<lparr>status = 500, json = Uncaught_exception\<rparr>)
            | Some u \<Rightarrow>
                if fails then (st, \<lparr>status = 500, json = Uncaught_exception\<rparr>)
                else (update_role st (string_of (the (body_role body))) u,
                      \<lparr>status = 200, json = Ok_true\<rparr>)))"

section \<open>Notions the properties are stated with\<close>

text \<open>The conflict branch of the upsert on its own: the rows of user \<open>u\<close> get the display
  name and the time of the cycle.\<close>

definition touch_row :: "int \<Rightarrow> string \<Rightarrow> string \<Rightarrow> member \<Rightarrow> member" where
  "touch_row t u dn m = (if user_id m = u then m\<lparr>display_name := Some dn, last_seen := t\<rparr> else m)"

definition touch :: "int \<Rightarrow> string \<Rightarrow> string \<Rightarrow> store \<Rightarrow> store" where
  "touch t u dn st = st\<lparr>members := map (touch_row t u dn) (members st)\<rparr>"

text \<open>
  An occupant list without duplicates: every user keeps the place of the first entry and
  the data of the last one, as the upsert lets the last display name win.
\<close>

fun dedupOccupants :: "guild_member list \<Rightarrow> guild_member list" where
  "dedupOccupants [] = []"
| "dedupOccupants (g # gs) =
     last (g # filter (\<lambda>h. gm_id h = gm_id g) gs)
       # dedupOccupants (filter (\<lambda>h. gm_id h \<noteq> gm_id g) gs)"

text \<open>The stores the program can be in: it starts empty, and every sampling cycle (with
  or without failures) and every role request leads from one store to the next.\<close>

inductive reachable :: "env \<Rightarrow> store \<Rightarrow> bool" for e :: env where
  start: "reachable e empty_store"
| cycle: "reachable e st \<Longrightarrow> reachable e (fst (sampleVoiceChannel e F t channel st))"
| set_role: "reachable e st \<Longrightarrow> reachable e (fst (post_role bind fails st body))"

text \<open>What a store that respects the keys of the schema looks like.\<close>

definition store_inv :: "store \<Rightarrow> bool" where
  "store_inv st =
     (distinct (map user_id (members st)) \<and> distinct (map sid (snapshots st))
      \<and> distinct (presence st)
      \<and> list_all (\<lambda>s. sid s \<le> seq st) (snapshots st)
      \<and> list_all (\<lambda>p. fst p \<in> sid ` set (snapshots st)) (presence st))"

text \<open>The order of the ranking: a defined percentage is at least any undefined one.\<close>

fun pct_ge :: "rat option \<Rightarrow> rat option \<Rightarrow> bool" where
  "pct_ge (Some x) (Some y) = (y \<le> x)"
| "pct_ge (Some x) None = True"
| "pct_ge None (Some y) = False"
| "pct_ge None None = True"

definition is_below_half :: "row \<Rightarrow> bool" where
  "is_below_half r = (case pct (thisMonth r) of None \<Rightarrow> False | Some p \<Rightarrow> p < 1 / 2)"

definition is_between_half_and_three_quarters :: "row \<Rightarrow> bool" where
  "is_between_half_and_three_quarters r =
     (case pct (thisMonth r) of None \<Rightarrow> False | Some p \<Rightarrow> 1 / 2 \<le> p \<and> p < 3 / 4)"

text \<open>The year-month string \<^verbatim>\<open>YYYY-MM\<close> of a year and a month from 1 to 12.\<close>

definition month_key :: "nat \<Rightarrow> nat \<Rightarrow> string" where
  "month_key y m = padStart 4 (show_nat y) @ ''-'' @ padStart 2 (show_nat m)"

text \<open>Only the display name and the time last seen of a row may differ.\<close>

definition same_but_name_and_last_seen :: "member \<Rightarrow> member \<Rightarrow> bool" where
  "same_but_name_and_last_seen m m' =
     (m' = m\<lparr>display_name := display_name m', last_seen := last_seen m'\<rparr>)"

text \<open>The rows that one presence row of user \<open>u\<close> contributes to the join with the
  snapshots that satisfy \<open>P\<close>.\<close>

definition join_rows :: "string \<Rightarrow> (snapshot \<Rightarrow> bool) \<Rightarrow> snapshot list \<Rightarrow> nat \<times> string \<Rightarrow> nat" where
  "join_rows u P xs p = (if snd p = u then length (filter (\<lambda>s. sid s = fst p \<and> P s) xs) else 0)"

text \<open>The number that a string of decimal digits denotes.\<close>

definition digits_value :: "string \<Rightarrow> nat" where
  "digits_value s = foldl (\<lambda>n c. 10 * n + (case digit_of c of None \<Rightarrow> 0 | Some d \<Rightarrow> d)) 0 s"


text \<open>The last entry of a member in an occupant list.\<close>

definition last_entry :: "guild_member list \<Rightarrow> string \<Rightarrow> guild_member option" where
  "last_entry gms u =
     (case filter (\<lambda>g. gm_id g = u) gms of [] \<Rightarrow> None | x # xs \<Rightarrow> Some (last (x # xs)))"

text \<open>The row of a member after a cycle with the occupants \<open>gms\<close> at time \<open>t\<close>: an
  occupant gets the display name of its last entry and the time.\<close>

definition seen_again :: "int \<Rightarrow> guild_member list \<Rightarrow> member \<Rightarrow> member" where
  "seen_again t gms m =
     (case last_entry gms (user_id m) of
        None \<Rightarrow> m
      | Some g \<Rightarrow> m\<lparr>display_name := Some (displayName g), last_seen := t\<rparr>)"

text \<open>The row of an occupant seen for the first time.\<close>

definition new_member :: "int \<Rightarrow> guild_member \<Rightarrow> member" where
  "new_member t g =
     \<lparr>user_id = gm_id g, display_name = Some (displayName g), role = Some ''Raider'',
      first_seen = t, last_seen = t\<rparr>"

section \<open>A host in UTC and a small history\<close>

text \<open>Days from 1970-01-01 to a date of the proleptic Gregorian calendar.\<close>

definition days_from_civil :: "int \<Rightarrow> int \<Rightarrow> int \<Rightarrow> int" where
  "days_from_civil y m d =
     (let y' = (if m \<le> 2 then y - 1 else y);
          era = y' div 400;
          yoe = y' - era * 400;
          doy = (153 * (if m > 2 then m - 3 else m + 9) + 2) div 5 + d - 1;
          doe = yoe * 365 + yoe div 4 - yoe div 100 + doy
      in era * 146097 + doe - 719468)"

definition utc_env :: env where
  "utc_env =
     \<lparr>GUILD_ID = ''guild'', VOICE_CHANNEL_ID = ''voice'', now_local = (2024, 6),
      startOfMonth = (\<lambda>y m. days_from_civil y (m + 1) 1 * 86400000),
      endOfMonth = (\<lambda>y m. days_from_civil (y + (m + 1) div 12) ((m + 1) mod 12 + 1) 1 * 86400000 - 1),
      parseOther = (\<lambda>s. None)\<rparr>"

definition ann :: guild_member where
  "ann = \<lparr>gm_id = ''1001'', gm_displayName = Some ''Ann'', gm_username = Some ''ann_eq2''\<rparr>"

definition ann_renamed :: guild_member where
  "ann_renamed = \<lparr>gm_id = ''1001'', gm_displayName = Some ''Annie'', gm_username = Some ''ann_eq2''\<rparr>"

definition bob :: guild_member where
  "bob = \<lparr>gm_id = ''1002'', gm_displayName = None, gm_username = Some ''bob''\<rparr>"

text \<open>Carol has neither a display name nor a user name.\<close>

definition carol :: guild_member where
  "carol = \<lparr>gm_id = ''1003'', gm_displayName = None, gm_username = None\<rparr>"

definition no_failure :: "nat \<Rightarrow> bool" where
  "no_failure k = False"

text \<open>Three cycles in July 2024 (Ann and Bob, then Ann, then nobody), after one in June.\<close>

definition store_june :: store where
  "store_june = fst (sampleVoiceChannel utc_env no_failure 1718000000000 (Voice [ann, bob]) empty_store)"

definition store_july :: store where
  "store_july =
     fst (sampleVoiceChannel utc_env no_failure 1720007200000 (Voice [])
       (fst (sampleVoiceChannel utc_env no_failure 1720003600000 (Voice [ann])
         (fst (sampleVoiceChannel utc_env no_failure 1720000000000 (Voice [ann, bob]) store_june)))))"

text \<open>Ann is made a Reserve after the cycle of June.\<close>

text \<open>A driver for the examples: a whole number is compared as its decimal text with one
  fractional digit, and a boolean, an array or an object is refused.\<close>

definition example_bind :: "json_value \<Rightarrow> string option" where
  "example_bind v = (case v of JNumber n \<Rightarrow> Some (show_int \<lfloor>n\<rfloor> @ ''.0'') | _ \<Rightarrow> None)"

definition store_reserve :: store where
  "store_reserve =
     fst (post_role example_bind False store_june
            \<lparr>body_userId = Some (JString ''1001''), body_role = Some (JString ''Reserve'')\<rparr>)"

text \<open>Two members who both show as Bob: one present in one of three cycles of July 2024,
  the other in two.\<close>

definition bob_one :: guild_member where
  "bob_one = \<lparr>gm_id = ''2001'', gm_displayName = Some ''Bob'', gm_username = Some ''bob_one''\<rparr>"

definition bob_two :: guild_member where
  "bob_two = \<lparr>gm_id = ''2002'', gm_displayName = Some ''Bob'', gm_username = Some ''bob_two''\<rparr>"

definition store_bobs :: store where
  "store_bobs =
     fst (sampleVoiceChannel utc_env no_failure 1720007200000 (Voice [])
       (fst (sampleVoiceChannel utc_env no_failure 1720003600000 (Voice [bob_two])
         (fst (sampleVoiceChannel utc_env no_failure 1720000000000 (Voice [bob_one, bob_two])
            empty_store)))))"

definition example_row :: "string \<Rightarrow> rat option \<Rightarrow> row" where
  "example_row n p =
     \<lparr>userId = n, name = n, row_role = ''Raider'',
      thisMonth = \<lparr>ym = ''2024-07'', present = 0, total_snapshots = 0, pct = p\<rparr>,
      lastMonth = \<lparr>ym = ''2024-06'', present = 0, total_snapshots = 0, pct = None\<rparr>,
      flags = \<lparr>under50 = pct_below p (1 / 2), under75 = pct_below p (3 / 4)\<rparr>\<rparr>"

section \<open>Lemmas: the statements of a cycle\<close>

lemma upsertMember_snapshots [simp]: "snapshots (upsertMember st u dn r t) = snapshots st"
  by (simp add: upsertMember_def)

lemma upsertMember_presence [simp]: "presence (upsertMember st u dn r t) = presence st"
  by (simp add: upsertMember_def)

lemma upsertMember_seq [simp]: "seq (upsertMember st u dn r t) = seq st"
  by (simp add: upsertMember_def)

lemma insertPresence_ok:
  "s \<in> sid ` set (snapshots st) \<Longrightarrow>
   insertPresence st s u =
     Inr (if (s, u) \<in> set (presence st) then st else st\<lparr>presence := presence st @ [(s, u)]\<rparr>)"
  by (simp add: insertPresence_def)

lemma addOccupant_eq:
  "s \<in> sid ` set (snapshots st) \<Longrightarrow>
   insertPresence (upsertMember st (gm_id gm) (displayName gm) (Some ''Raider'') t) s (gm_id gm)
     = Inr (addOccupant s t st gm)"
  by (simp add: addOccupant_def insertPresence_ok)

lemma addOccupant_snapshots [simp]:
  "snapshots (addOccupant s t st gm) = snapshots st"
  by (simp add: addOccupant_def insertPresence_def)

lemma addOccupant_seq [simp]: "seq (addOccupant s t st gm) = seq st"
  by (simp add: addOccupant_def insertPresence_def)

lemma insertMembers_cases:
  "s \<in> sid ` set (snapshots st) \<Longrightarrow>
   insertMembers F k s t gms st =
     (if \<exists>j < 2 * length gms. F (k + j) then Inl StorageFailure
      else Inr (foldl (addOccupant s t) st gms, k + 2 * length gms))"
proof (induction gms arbitrary: k st)
  case Nil
  then show ?case by simp
next
  case (Cons gm gms)
  have ex: "(\<exists>j < 2 * length (gm # gms). F (k + j)) \<longleftrightarrow>
            F k \<or> F (k + 1) \<or> (\<exists>j < 2 * length gms. F (k + 2 + j))"
  proof
    assume "\<exists>j < 2 * length (gm # gms). F (k + j)"
    then obtain j where j: "j < 2 * length (gm # gms)" "F (k + j)" by blast
    show "F k \<or> F (k + 1) \<or> (\<exists>j < 2 * length gms. F (k + 2 + j))"
    proof (cases "j < 2")
      case True
      then have "j = 0 \<or> j = 1" by arith
      with j show ?thesis by auto
    next
      case False
      then have "j - 2 < 2 * length gms" "k + 2 + (j - 2) = k + j" using j by auto
      with j show ?thesis by metis
    qed
  next
    assume "F k \<or> F (k + 1) \<or> (\<exists>j < 2 * length gms. F (k + 2 + j))"
    then consider "F k" | "F (k + 1)" | j where "j < 2 * length gms" "F (k + 2 + j)" by blast
    then show "\<exists>j < 2 * length (gm # gms). F (k + j)"
    proof cases
      case 1 then show ?thesis by (intro exI[of _ 0]) simp
    next
      case 2 then show ?thesis by (intro exI[of _ 1]) simp
    next
      case 3 then show ?thesis by (intro exI[of _ "j + 2"]) (simp add: add.assoc add.commute)
    qed
  qed
  have s': "s \<in> sid ` set (snapshots (addOccupant s t st gm))" using Cons.prems by simp
  show ?case
    unfolding ex
    using Cons.IH[OF s', of "k + 2"] addOccupant_eq[OF Cons.prems, of gm t]
    by (simp add: Let_def)
qed


lemma insertSnapshot_fst:
  "fst (insertSnapshot st t g c) =
     st\<lparr>snapshots := snapshots st @ [\<lparr>sid = Suc (seq st), ts = t, guild_id = g, channel_id = c\<rparr>],
        seq := Suc (seq st)\<rparr>"
  and insertSnapshot_snd: "snd (insertSnapshot st t g c) = Suc (seq st)"
  by (simp_all add: insertSnapshot_def Let_def)

lemma foldl_addOccupant_snapshots [simp]:
  "snapshots (foldl (addOccupant s t) st gms) = snapshots st"
  by (induction gms arbitrary: st) simp_all

lemma foldl_addOccupant_seq [simp]:
  "seq (foldl (addOccupant s t) st gms) = seq st"
  by (induction gms arbitrary: st) simp_all

lemma insert_body_cases:
  "insert_body e F t gms st =
     (if \<exists>j < 2 * length gms + 1. F (1 + j) then Inl StorageFailure
      else Inr (recordSnapshot e st t gms, 2 + 2 * length gms))"
proof -
  let ?st1 = "fst (insertSnapshot st t (GUILD_ID e) (VOICE_CHANNEL_ID e))"
  let ?i = "Suc (seq st)"
  have mem: "?i \<in> sid ` set (snapshots ?st1)"
    by (simp add: insertSnapshot_fst)
  have ex: "(\<exists>j < 2 * length gms + 1. F (1 + j)) \<longleftrightarrow> F 1 \<or> (\<exists>j < 2 * length gms. F (2 + j))"
  proof
    assume "\<exists>j < 2 * length gms + 1. F (1 + j)"
    then obtain j where j: "j < 2 * length gms + 1" "F (1 + j)" by blast
    show "F 1 \<or> (\<exists>j < 2 * length gms. F (2 + j))"
    proof (cases j)
      case 0
      with j show ?thesis by simp
    next
      case (Suc j')
      with j have "j' < 2 * length gms" "F (2 + j')" by simp_all
      then show ?thesis by blast
    qed
  next
    assume "F 1 \<or> (\<exists>j < 2 * length gms. F (2 + j))"
    then consider "F 1" | j where "j < 2 * length gms" "F (2 + j)" by blast
    then show "\<exists>j < 2 * length gms + 1. F (1 + j)"
    proof cases
      case 1 then show ?thesis by (intro exI[of _ 0]) simp
    next
      case 2 then show ?thesis by (intro exI[of _ "Suc j"]) simp
    qed
  qed
  show ?thesis
    unfolding ex
    using insertMembers_cases[OF mem, of F 2 t gms]
    by (simp add: insert_body_def recordSnapshot_def split_beta insertSnapshot_snd)
qed

text \<open>A cycle either changes nothing or does the whole write.\<close>

lemma sampleVoiceChannel_cases:
  "sampleVoiceChannel e F t channel st = (st, Failed AdapterFailure)
   \<or> sampleVoiceChannel e F t channel st = (st, Warned)
   \<or> sampleVoiceChannel e F t channel st = (st, Failed StorageFailure)
   \<or> (\<exists>gms. channel = Voice gms
        \<and> sampleVoiceChannel e F t channel st = (recordSnapshot e st t gms, Saved (length gms)))"
  by (cases channel) (simp_all add: sampleVoiceChannel_def transaction_def insert_body_cases)

lemma sampleVoiceChannel_no_failure:
  "(\<And>k. \<not> F k) \<Longrightarrow>
   sampleVoiceChannel e F t (Voice gms) st = (recordSnapshot e st t gms, Saved (length gms))"
  by (simp add: sampleVoiceChannel_def transaction_def insert_body_cases)

lemma fst_sampleVoiceChannel:
  "fst (sampleVoiceChannel e F t channel st) = st
   \<or> (\<exists>gms. fst (sampleVoiceChannel e F t channel st) = recordSnapshot e st t gms)"
  using sampleVoiceChannel_cases[of e F t channel st] by (metis fst_conv)

section \<open>Lemmas: what one occupant does to the members\<close>

lemma members_upsertMember_nth:
  assumes "i < length (members st)"
  shows "i < length (members (upsertMember st u dn r t))
     \<and> members (upsertMember st u dn r t) ! i =
         (if user_id (members st ! i) = u
          then (members st ! i)\<lparr>display_name := Some dn, last_seen := t\<rparr>
          else members st ! i)"
  using assms by (auto simp: upsertMember_def nth_append)

lemma members_addOccupant:
  "s \<in> sid ` set (snapshots st) \<Longrightarrow>
   members (addOccupant s t st gm) =
     members (upsertMember st (gm_id gm) (displayName gm) (Some ''Raider'') t)"
  by (simp add: addOccupant_def insertPresence_def)

lemma presence_addOccupant:
  "s \<in> sid ` set (snapshots st) \<Longrightarrow>
   presence (addOccupant s t st gm) =
     (if (s, gm_id gm) \<in> set (presence st) then presence st
      else presence st @ [(s, gm_id gm)])"
  by (simp add: addOccupant_def insertPresence_def)


lemma same_but_refl: "same_but_name_and_last_seen m m"
  by (simp add: same_but_name_and_last_seen_def)

lemma same_but_fields:
  "same_but_name_and_last_seen m m' \<longleftrightarrow>
     user_id m' = user_id m \<and> role m' = role m \<and> first_seen m' = first_seen m
     \<and> member.more m' = member.more m"
  unfolding same_but_name_and_last_seen_def
  by (cases m, cases m') auto

lemma addOccupant_frame:
  assumes "s \<in> sid ` set (snapshots st)" "i < length (members st)"
  shows "i < length (members (addOccupant s t st gm))
     \<and> same_but_name_and_last_seen (members st ! i) (members (addOccupant s t st gm) ! i)
     \<and> (gm_id gm \<noteq> user_id (members st ! i) \<longrightarrow>
          members (addOccupant s t st gm) ! i = members st ! i)
     \<and> (gm_id gm = user_id (members st ! i) \<longrightarrow>
          last_seen (members (addOccupant s t st gm) ! i) = t
          \<and> display_name (members (addOccupant s t st gm) ! i) = Some (displayName gm))"
  using members_upsertMember_nth[OF assms(2), of "gm_id gm" "displayName gm" "Some ''Raider''" t]
  by (auto simp: members_addOccupant[OF assms(1)] same_but_fields)

lemma foldl_addOccupant_frame:
  assumes "s \<in> sid ` set (snapshots st)" "i < length (members st)"
  shows "i < length (members (foldl (addOccupant s t) st gms))
     \<and> same_but_name_and_last_seen (members st ! i) (members (foldl (addOccupant s t) st gms) ! i)
     \<and> (user_id (members st ! i) \<notin> gm_id ` set gms \<longrightarrow>
          members (foldl (addOccupant s t) st gms) ! i = members st ! i)
     \<and> (user_id (members st ! i) \<in> gm_id ` set gms \<longrightarrow>
          last_seen (members (foldl (addOccupant s t) st gms) ! i) = t
          \<and> display_name (members (foldl (addOccupant s t) st gms) ! i)
              \<in> (\<lambda>gm. Some (displayName gm)) ` {gm \<in> set gms. gm_id gm = user_id (members st ! i)})"
  using assms
proof (induction gms arbitrary: st rule: rev_induct)
  case Nil
  then show ?case by (simp add: same_but_refl)
next
  case (snoc gm gms)
  let ?mid = "foldl (addOccupant s t) st gms"
  have s': "s \<in> sid ` set (snapshots ?mid)" using snoc.prems by simp
  note ih = snoc.IH[OF snoc.prems]
  then have i': "i < length (members ?mid)" by blast
  note st = addOccupant_frame[OF s' i', of t gm]
  have uid: "user_id (members ?mid ! i) = user_id (members st ! i)"
    using ih by (simp add: same_but_fields)
  show ?case
  proof (cases "gm_id gm = user_id (members st ! i)")
    case True
    with ih st uid show ?thesis
      by (auto simp: same_but_fields)
  next
    case False
    with ih st uid show ?thesis
      by (auto simp: same_but_fields)
  qed
qed

lemma recordSnapshot_frame:
  assumes "i < length (members st)"
  shows "i < length (members (recordSnapshot e st t gms))
     \<and> same_but_name_and_last_seen (members st ! i) (members (recordSnapshot e st t gms) ! i)
     \<and> (user_id (members st ! i) \<notin> gm_id ` set gms \<longrightarrow>
          members (recordSnapshot e st t gms) ! i = members st ! i)
     \<and> (user_id (members st ! i) \<in> gm_id ` set gms \<longrightarrow>
          last_seen (members (recordSnapshot e st t gms) ! i) = t
          \<and> display_name (members (recordSnapshot e st t gms) ! i)
              \<in> (\<lambda>gm. Some (displayName gm)) ` {gm \<in> set gms. gm_id gm = user_id (members st ! i)})"
proof -
  let ?st1 = "fst (insertSnapshot st t (GUILD_ID e) (VOICE_CHANNEL_ID e))"
  have mem: "Suc (seq st) \<in> sid ` set (snapshots ?st1)" and m1: "members ?st1 = members st"
    by (simp_all add: insertSnapshot_fst)
  have i1: "i < length (members ?st1)" using assms m1 by simp
  show ?thesis
    using foldl_addOccupant_frame[OF mem i1, of t gms]
    by (simp add: recordSnapshot_def split_beta insertSnapshot_snd m1)
qed

section \<open>Lemmas: the keys of the schema hold in every store\<close>

lemma user_ids_upsertMember:
  "map user_id (members (upsertMember st u dn r t)) =
     (if u \<in> user_id ` set (members st) then map user_id (members st)
      else map user_id (members st) @ [u])"
  by (auto simp: upsertMember_def comp_def intro!: map_cong)

lemma user_ids_addOccupant:
  "s \<in> sid ` set (snapshots st) \<Longrightarrow>
   map user_id (members (addOccupant s t st gm)) =
     (if gm_id gm \<in> user_id ` set (members st) then map user_id (members st)
      else map user_id (members st) @ [gm_id gm])"
  by (simp add: members_addOccupant user_ids_upsertMember)

lemma foldl_addOccupant_tables:
  assumes "s \<in> sid ` set (snapshots st)"
  shows "set (presence (foldl (addOccupant s t) st gms)) = set (presence st) \<union> {s} \<times> gm_id ` set gms
     \<and> (distinct (presence st) \<longrightarrow> distinct (presence (foldl (addOccupant s t) st gms)))
     \<and> user_id ` set (members (foldl (addOccupant s t) st gms))
          = user_id ` set (members st) \<union> gm_id ` set gms
     \<and> (distinct (map user_id (members st)) \<longrightarrow>
          distinct (map user_id (members (foldl (addOccupant s t) st gms))))"
  using assms
proof (induction gms arbitrary: st rule: rev_induct)
  case Nil
  then show ?case by simp
next
  case (snoc gm gms)
  let ?mid = "foldl (addOccupant s t) st gms"
  have s': "s \<in> sid ` set (snapshots ?mid)" using snoc.prems by simp
  note ih = snoc.IH[OF snoc.prems]
  have ids: "set (map user_id (members (addOccupant s t ?mid gm)))
               = set (map user_id (members ?mid)) \<union> {gm_id gm}"
    unfolding user_ids_addOccupant[OF s'] by auto
  have p1: "set (presence (addOccupant s t ?mid gm)) = set (presence ?mid) \<union> {(s, gm_id gm)}"
    unfolding presence_addOccupant[OF s'] by auto
  have p2: "distinct (presence ?mid) \<Longrightarrow> distinct (presence (addOccupant s t ?mid gm))"
    unfolding presence_addOccupant[OF s'] by auto
  have p3: "distinct (map user_id (members ?mid)) \<Longrightarrow>
            distinct (map user_id (members (addOccupant s t ?mid gm)))"
    unfolding user_ids_addOccupant[OF s'] by auto
  have a: "set (presence (foldl (addOccupant s t) st (gms @ [gm])))
             = set (presence st) \<union> {s} \<times> gm_id ` set (gms @ [gm])"
    using ih p1 by auto
  have b: "user_id ` set (members (foldl (addOccupant s t) st (gms @ [gm])))
             = user_id ` set (members st) \<union> gm_id ` set (gms @ [gm])"
    using ih ids by auto
  show ?case
    using a b ih p2 p3 by simp
qed

lemma store_inv_empty: "store_inv empty_store"
  by (simp add: store_inv_def empty_store_def)

lemma store_inv_recordSnapshot:
  assumes "store_inv st"
  shows "store_inv (recordSnapshot e st t gms)"
proof -
  let ?st1 = "fst (insertSnapshot st t (GUILD_ID e) (VOICE_CHANNEL_ID e))"
  let ?i = "Suc (seq st)"
  let ?st' = "foldl (addOccupant ?i t) ?st1 gms"
  have eq: "recordSnapshot e st t gms = ?st'"
    by (simp add: recordSnapshot_def split_beta insertSnapshot_snd)
  have mem: "?i \<in> sid ` set (snapshots ?st1)"
    by (simp add: insertSnapshot_fst)
  note tb = foldl_addOccupant_tables[OF mem, of t gms]
  have le: "\<forall>s \<in> set (snapshots st). sid s \<le> seq st"
    using assms by (simp add: store_inv_def list_all_iff)
  have fk: "\<forall>p \<in> set (presence st). fst p \<in> sid ` set (snapshots st)"
    using assms by (simp add: store_inv_def list_all_iff)
  have new: "?i \<notin> sid ` set (snapshots st)"
    using le by force
  have d1: "distinct (map user_id (members ?st'))"
    using tb assms by (simp add: store_inv_def insertSnapshot_fst)
  have d2: "distinct (map sid (snapshots ?st'))"
    using assms new by (simp add: store_inv_def insertSnapshot_fst)
  have d3: "distinct (presence ?st')"
    using tb assms by (simp add: store_inv_def insertSnapshot_fst)
  have d4: "list_all (\<lambda>s. sid s \<le> seq ?st') (snapshots ?st')"
    using le by (auto simp: list_all_iff insertSnapshot_fst)
  have d5: "list_all (\<lambda>p. fst p \<in> sid ` set (snapshots ?st')) (presence ?st')"
    using fk tb by (auto simp: list_all_iff insertSnapshot_fst)
  show ?thesis
    unfolding eq store_inv_def using d1 d2 d3 d4 d5 by simp
qed

lemma user_ids_update_role [simp]:
  "map user_id (members (update_role st r u)) = map user_id (members st)"
  by (auto simp: update_role_def comp_def intro!: map_cong)

lemma store_inv_post_role:
  assumes "store_inv st"
  shows "store_inv (fst (post_role bind fails st body))"
proof -
  have "store_inv (update_role st r u)" for r u
    using assms user_ids_update_role[of st r u]
    by (simp add: store_inv_def) (simp add: update_role_def)
  then show ?thesis using assms by (simp add: post_role_def split: option.splits)
qed

lemma reachable_store_inv: "reachable e st \<Longrightarrow> store_inv st"
proof (induction rule: reachable.induct)
  case start
  show ?case by (rule store_inv_empty)
next
  case (cycle st F t channel)
  then show ?case
    using fst_sampleVoiceChannel[of e F t channel st] store_inv_recordSnapshot[of st e t]
    by auto
next
  case (set_role st bind fails body)
  then show ?case by (simp add: store_inv_post_role)
qed

lemma recordSnapshot_tables:
  assumes "store_inv st"
  shows "snapshots (recordSnapshot e st t gms)
           = snapshots st @ [\<lparr>sid = Suc (seq st), ts = t, guild_id = GUILD_ID e,
                               channel_id = VOICE_CHANNEL_ID e\<rparr>]"
    and "set (presence (recordSnapshot e st t gms))
           = set (presence st) \<union> {Suc (seq st)} \<times> gm_id ` set gms"
    and "distinct (presence (recordSnapshot e st t gms))"
    and "\<forall>p \<in> set (presence st). fst p \<noteq> Suc (seq st)"
    and "user_id ` set (members (recordSnapshot e st t gms))
           = user_id ` set (members st) \<union> gm_id ` set gms"
proof -
  let ?st1 = "fst (insertSnapshot st t (GUILD_ID e) (VOICE_CHANNEL_ID e))"
  let ?i = "Suc (seq st)"
  have eq: "recordSnapshot e st t gms = foldl (addOccupant ?i t) ?st1 gms"
    by (simp add: recordSnapshot_def split_beta insertSnapshot_snd)
  have mem: "?i \<in> sid ` set (snapshots ?st1)"
    by (simp add: insertSnapshot_fst)
  note tb = foldl_addOccupant_tables[OF mem, of t gms]
  show "snapshots (recordSnapshot e st t gms)
           = snapshots st @ [\<lparr>sid = Suc (seq st), ts = t, guild_id = GUILD_ID e,
                               channel_id = VOICE_CHANNEL_ID e\<rparr>]"
    by (simp add: eq insertSnapshot_fst)
  show "set (presence (recordSnapshot e st t gms))
           = set (presence st) \<union> {Suc (seq st)} \<times> gm_id ` set gms"
    using tb by (simp add: eq insertSnapshot_fst)
  show "distinct (presence (recordSnapshot e st t gms))"
    using store_inv_recordSnapshot[OF assms, of e t gms] by (simp add: store_inv_def)
  show "user_id ` set (members (recordSnapshot e st t gms))
           = user_id ` set (members st) \<union> gm_id ` set gms"
    using tb by (simp add: eq insertSnapshot_fst)
  have "\<forall>s \<in> set (snapshots st). sid s \<le> seq st"
       "\<forall>p \<in> set (presence st). fst p \<in> sid ` set (snapshots st)"
    using assms by (simp_all add: store_inv_def list_all_iff)
  then show "\<forall>p \<in> set (presence st). fst p \<noteq> Suc (seq st)" by force
qed

section \<open>Lemmas: counting the rows of the join\<close>

lemma join_rows_Nil: "join_rows u P [] p = 0"
  by (simp add: join_rows_def)

lemma join_rows_Cons:
  "join_rows u P (x # xs) p = join_rows u P xs p + (if p = (sid x, u) \<and> P x then 1 else 0)"
  by (cases p) (simp add: join_rows_def)

lemma sum_one_row:
  "distinct ps \<Longrightarrow> sum_list (map (\<lambda>p. if p = q \<and> b then 1 else (0::nat)) ps) \<le> (if b then 1 else 0)"
  by (induction ps) auto

lemma join_count_bound:
  assumes "distinct ps"
  shows "sum_list (map (join_rows u P xs) ps) \<le> length (filter P xs)"
proof (induction xs)
  case Nil
  show ?case by (simp add: join_rows_Nil)
next
  case (Cons x xs)
  have "sum_list (map (join_rows u P (x # xs)) ps)
          = sum_list (map (join_rows u P xs) ps)
            + sum_list (map (\<lambda>p. if p = (sid x, u) \<and> P x then 1 else (0::nat)) ps)"
    by (induction ps) (simp_all add: join_rows_Cons)
  also have "\<dots> \<le> length (filter P xs) + (if P x then 1 else 0)"
    using Cons.IH sum_one_row[OF assms, of "(sid x, u)" "P x"] by (rule add_mono)
  finally show ?case by (cases "P x") simp_all
qed


lemma count_list_map_const:
  "count_list (map (\<lambda>s. v) xs) u = (if v = u then length xs else 0)"
  by (induction xs) auto

lemma count_join_rows:
  "count_list (concat (map (\<lambda>p. map (\<lambda>s. snd p) (filter (\<lambda>s. sid s = fst p \<and> P s) xs)) ps)) u
     = sum_list (map (join_rows u P xs) ps)"
  by (induction ps) (simp_all add: count_list_map_const join_rows_def)

lemma count_joined_users:
  "count_list (joined_users st b c g) u =
     sum_list (map (join_rows u (in_range b c g) (snapshots st)) (presence st))"
  by (simp add: joined_users_def count_join_rows)

lemma present_le_total_inv:
  assumes "distinct (presence st)"
  shows "count_list (joined_users st b c g) u \<le> qTotalSnapshotsInRange st b c g"
  unfolding count_joined_users qTotalSnapshotsInRange_def
  by (rule join_count_bound[OF assms])

lemma map_of_rev_distinct:
  "distinct (map fst xs) \<Longrightarrow> map_of (rev xs) k = map_of xs k"
proof (induction xs)
  case Nil
  show ?case by simp
next
  case (Cons x xs)
  then have ih: "map_of (rev xs) k = map_of xs k" by simp
  show ?case
  proof (cases "k = fst x")
    case True
    with Cons.prems have "map_of xs k = None"
      by (simp add: map_of_eq_None_iff)
    with ih True show ?thesis by (cases x) (simp add: map_add_def)
  next
    case False
    with ih show ?thesis by (cases x) (simp add: map_add_def split: option.splits)
  qed
qed

text \<open>The Map built of the grouped rows gives every user the number of its joined rows.\<close>

lemma map_of_counts:
  "map_of (rev (map (\<lambda>u. (u, count_list us u)) (remdups us))) u =
     (if u \<in> set us then Some (count_list us u) else None)"
proof -
  have d: "distinct (map fst (map (\<lambda>u. (u, count_list us u)) (remdups us)))"
    by (simp add: comp_def)
  have "map_of (rev (map (\<lambda>u. (u, count_list us u)) (remdups us))) u =
        map_of (map (\<lambda>u. (u, count_list us u)) (remdups us)) u"
    using d by (rule map_of_rev_distinct)
  then show ?thesis
    by (simp add: map_of_map_restrict restrict_map_def)
qed

lemma presentMap_lookup:
  "get_or_0 (map_of (rev (qPresenceCountsInRange st b c g))) u = count_list (joined_users st b c g) u"
  by (auto simp: get_or_0_def qPresenceCountsInRange_def Let_def map_of_counts count_list_0_iff)

section \<open>Lemmas: the small history, evaluated\<close>

lemma store_june_eq:
  "store_june =
     \<lparr>members =
        [\<lparr>user_id = ''1001'', display_name = Some ''Ann'', role = Some ''Raider'',
          first_seen = 1718000000000, last_seen = 1718000000000\<rparr>,
         \<lparr>user_id = ''1002'', display_name = Some ''bob'', role = Some ''Raider'',
          first_seen = 1718000000000, last_seen = 1718000000000\<rparr>],
      snapshots = [\<lparr>sid = 1, ts = 1718000000000, guild_id = ''guild'', channel_id = ''voice''\<rparr>],
      presence = [(1, ''1001''), (1, ''1002'')], seq = 1\<rparr>"
  by (simp add: store_june_def sampleVoiceChannel_def transaction_def insert_body_def
      insertSnapshot_def insertPresence_def upsertMember_def no_failure_def empty_store_def
      utc_env_def ann_def bob_def displayName_def or_else_def)

lemma store_july_eq:
  "store_july =
     \<lparr>members =
        [\<lparr>user_id = ''1001'', display_name = Some ''Ann'', role = Some ''Raider'',
          first_seen = 1718000000000, last_seen = 1720003600000\<rparr>,
         \<lparr>user_id = ''1002'', display_name = Some ''bob'', role = Some ''Raider'',
          first_seen = 1718000000000, last_seen = 1720000000000\<rparr>],
      snapshots =
        [\<lparr>sid = 1, ts = 1718000000000, guild_id = ''guild'', channel_id = ''voice''\<rparr>,
         \<lparr>sid = 2, ts = 1720000000000, guild_id = ''guild'', channel_id = ''voice''\<rparr>,
         \<lparr>sid = 3, ts = 1720003600000, guild_id = ''guild'', channel_id = ''voice''\<rparr>,
         \<lparr>sid = 4, ts = 1720007200000, guild_id = ''guild'', channel_id = ''voice''\<rparr>],
      presence = [(1, ''1001''), (1, ''1002''), (2, ''1001''), (2, ''1002''), (3, ''1001'')],
      seq = 4\<rparr>"
  by (simp add: store_july_def store_june_eq sampleVoiceChannel_def transaction_def insert_body_def
      insertSnapshot_def insertPresence_def upsertMember_def no_failure_def
      utc_env_def ann_def bob_def displayName_def or_else_def)

lemma reachable_store_june: "reachable utc_env store_june"
  unfolding store_june_def by (intro reachable.intros)

lemma reachable_store_july: "reachable utc_env store_july"
  unfolding store_july_def by (intro reachable.intros reachable_store_june)

section \<open>Present counts never exceed the snapshot total\<close>

text \<open>
  Claim C3. In every store the program can reach, for every member \<open>u\<close>, every space
  (channel \<open>c\<close>, guild \<open>g\<close>) and every range \<open>b\<close>, the present count of the member, which
  is the number of rows of the join of presence and snapshots in the range and also what
  the Map of the grouped rows holds for the member (0 when absent), is at most the number of
  snapshots in the range. It rests on the primary key of presence, which the cycles keep.
\<close>

theorem present_le_total:
  assumes "reachable e st"
  shows "get_or_0 (map_of (rev (qPresenceCountsInRange st b c g))) u
           = count_list (joined_users st b c g) u
       \<and> count_list (joined_users st b c g) u \<le> qTotalSnapshotsInRange st b c g
       \<and> get_or_0 (presentMap (computeAttendance e st key)) u \<le> totalN (computeAttendance e st key)"
proof -
  have d: "distinct (presence st)"
    using reachable_store_inv[OF assms] by (simp add: store_inv_def)
  show ?thesis
    using present_le_total_inv[OF d]
    by (simp add: presentMap_lookup computeAttendance_def Let_def)
qed

theorem present_le_total_witness:
  "reachable utc_env store_july
   \<and> count_list (joined_users store_july (Some (1719792000000, 1722470399999)) ''voice'' ''guild'') ''1001'' = 2
   \<and> qTotalSnapshotsInRange store_july (Some (1719792000000, 1722470399999)) ''voice'' ''guild'' = 3
   \<and> get_or_0 (map_of (rev (qPresenceCountsInRange store_july (Some (1719792000000, 1722470399999))
         ''voice'' ''guild''))) ''1001'' \<le> 3"
proof -
  have r: "reachable utc_env store_july" by (rule reachable_store_july)
  have t: "qTotalSnapshotsInRange store_july (Some (1719792000000, 1722470399999)) ''voice'' ''guild'' = 3"
    by (simp add: store_july_eq qTotalSnapshotsInRange_def in_range_def)
  have c: "count_list (joined_users store_july (Some (1719792000000, 1722470399999)) ''voice'' ''guild'') ''1001'' = 2"
    by (simp add: store_july_eq joined_users_def in_range_def)
  show ?thesis
    using r t c present_le_total[OF r, of "Some (1719792000000, 1722470399999)" "''voice''" "''guild''" "''1001''" None]
    by simp
qed

section \<open>Lemmas: the cycle as a whole\<close>

lemma sampleVoiceChannel_Voice:
  "sampleVoiceChannel e F t (Voice gms) st =
     (if \<exists>k \<le> 2 * length gms + 2. F k then (st, Failed StorageFailure)
      else (recordSnapshot e st t gms, Saved (length gms)))"
proof -
  have ex: "(\<exists>k \<le> 2 * length gms + 2. F k) \<longleftrightarrow>
            F 0 \<or> (\<exists>j < 2 * length gms + 1. F (1 + j)) \<or> F (2 + 2 * length gms)"
  proof
    assume "\<exists>k \<le> 2 * length gms + 2. F k"
    then obtain k where k: "k \<le> 2 * length gms + 2" "F k" by blast
    consider "k = 0" | "k = 2 + 2 * length gms" | "0 < k" "k < 2 + 2 * length gms"
      using k(1) by arith
    then show "F 0 \<or> (\<exists>j < 2 * length gms + 1. F (1 + j)) \<or> F (2 + 2 * length gms)"
    proof cases
      case 1 with k show ?thesis by simp
    next
      case 2 with k show ?thesis by simp
    next
      case 3
      then have "k - 1 < 2 * length gms + 1" "1 + (k - 1) = k" by arith+
      with k(2) show ?thesis by metis
    qed
  next
    assume "F 0 \<or> (\<exists>j < 2 * length gms + 1. F (1 + j)) \<or> F (2 + 2 * length gms)"
    then consider "F 0" | j where "j < 2 * length gms + 1" "F (1 + j)" | "F (2 + 2 * length gms)"
      by blast
    then show "\<exists>k \<le> 2 * length gms + 2. F k"
    proof cases
      case 1 then show ?thesis by (intro exI[of _ 0]) simp
    next
      case 2 then show ?thesis by (intro exI[of _ "1 + j"]) simp
    next
      case 3 then show ?thesis by (intro exI[of _ "2 + 2 * length gms"]) simp
    qed
  qed
  show ?thesis
    unfolding ex
    by (simp add: sampleVoiceChannel_def transaction_def insert_body_cases)
qed

section \<open>A cycle leaves role and first sighting alone\<close>

text \<open>
  Claim C10. A sampling cycle changes at most the display name and the time last seen of a
  member already in the table: the row keeps its place, its user id, its role and its time
  first seen, whatever the cycle does and wherever it fails. A member who is not among the
  occupants keeps the whole row; a member who is gets, when the cycle meets no failure, the
  time of the cycle as time last seen and the display name of one of its entries.
\<close>

theorem cycle_keeps_role_and_first_seen:
  assumes "i < length (members st)"
  shows "i < length (members (fst (sampleVoiceChannel e F t channel st)))
     \<and> user_id (members (fst (sampleVoiceChannel e F t channel st)) ! i) = user_id (members st ! i)
     \<and> role (members (fst (sampleVoiceChannel e F t channel st)) ! i) = role (members st ! i)
     \<and> first_seen (members (fst (sampleVoiceChannel e F t channel st)) ! i)
         = first_seen (members st ! i)
     \<and> ((\<forall>gms. channel = Voice gms \<longrightarrow> user_id (members st ! i) \<notin> gm_id ` set gms) \<longrightarrow>
          members (fst (sampleVoiceChannel e F t channel st)) ! i = members st ! i)
     \<and> (\<forall>gms. channel = Voice gms \<and> (\<forall>k. \<not> F k) \<and> user_id (members st ! i) \<in> gm_id ` set gms \<longrightarrow>
          last_seen (members (fst (sampleVoiceChannel e F t channel st)) ! i) = t
          \<and> display_name (members (fst (sampleVoiceChannel e F t channel st)) ! i)
              \<in> (\<lambda>gm. Some (displayName gm)) ` {gm \<in> set gms. gm_id gm = user_id (members st ! i)})"
proof (cases channel)
  case FetchError
  with assms show ?thesis by (simp add: sampleVoiceChannel_def)
next
  case NotVoice
  with assms show ?thesis by (simp add: sampleVoiceChannel_def)
next
  case (Voice gms)
  note fr = recordSnapshot_frame[OF assms, of e t gms]
  show ?thesis
  proof (cases "\<exists>k \<le> 2 * length gms + 2. F k")
    case True
    with Voice assms show ?thesis by (auto simp: sampleVoiceChannel_Voice)
  next
    case False
    with Voice fr assms show ?thesis
      by (simp add: sampleVoiceChannel_Voice same_but_fields)
  qed
qed

lemma store_reserve_members:
  "members store_reserve =
        [\<lparr>user_id = ''1001'', display_name = Some ''Ann'', role = Some ''Reserve'',
          first_seen = 1718000000000, last_seen = 1718000000000\<rparr>,
         \<lparr>user_id = ''1002'', display_name = Some ''bob'', role = Some ''Raider'',
          first_seen = 1718000000000, last_seen = 1718000000000\<rparr>]"
  by (simp add: store_reserve_def post_role_def falsy_def bound_userId_def string_of_def
      update_role_def store_june_eq)

theorem cycle_keeps_role_and_first_seen_witness:
  "0 < length (members store_reserve)
   \<and> role (members (fst (sampleVoiceChannel utc_env no_failure 1720000000000 (Voice [ann_renamed])
        store_reserve)) ! 0) = Some ''Reserve''
   \<and> first_seen (members (fst (sampleVoiceChannel utc_env no_failure 1720000000000 (Voice [ann_renamed])
        store_reserve)) ! 0) = 1718000000000
   \<and> last_seen (members (fst (sampleVoiceChannel utc_env no_failure 1720000000000 (Voice [ann_renamed])
        store_reserve)) ! 0) = 1720000000000
   \<and> display_name (members (fst (sampleVoiceChannel utc_env no_failure 1720000000000 (Voice [ann_renamed])
        store_reserve)) ! 0) = Some ''Annie''"
proof -
  let ?st' = "fst (sampleVoiceChannel utc_env no_failure 1720000000000 (Voice [ann_renamed]) store_reserve)"
  have h: "0 < length (members store_reserve)" by (simp add: store_reserve_members)
  have n: "\<forall>k. \<not> no_failure k" by (simp add: no_failure_def)
  have m: "members store_reserve ! 0 =
             \<lparr>user_id = ''1001'', display_name = Some ''Ann'', role = Some ''Reserve'',
              first_seen = 1718000000000, last_seen = 1718000000000\<rparr>"
    by (simp add: store_reserve_members)
  have u: "user_id (members store_reserve ! 0) \<in> gm_id ` set [ann_renamed]"
    by (simp add: m ann_renamed_def)
  have d: "(\<lambda>gm. Some (displayName gm)) `
             {gm \<in> set [ann_renamed]. gm_id gm = user_id (members store_reserve ! 0)} = {Some ''Annie''}"
    by (auto simp: m ann_renamed_def displayName_def or_else_def)
  note th = cycle_keeps_role_and_first_seen[OF h, where e = utc_env and F = no_failure
      and t = 1720000000000 and channel = "Voice [ann_renamed]"]
  from th have "role (members ?st' ! 0) = role (members store_reserve ! 0)"
    and "first_seen (members ?st' ! 0) = first_seen (members store_reserve ! 0)"
    by blast+
  moreover from th n u have "last_seen (members ?st' ! 0) = 1720000000000"
    and "display_name (members ?st' ! 0) \<in> (\<lambda>gm. Some (displayName gm)) `
             {gm \<in> set [ann_renamed]. gm_id gm = user_id (members store_reserve ! 0)}"
    by blast+
  ultimately show ?thesis
    using h unfolding d by (simp add: m)
qed

section \<open>Lemmas: a later entry of a member only renames\<close>

lemma touch_row_simps [simp]:
  "user_id (touch_row t u dn m) = user_id m"
  "touch_row t u dn (touch_row t u dn' m) = touch_row t u dn m"
  "user_id m \<noteq> u \<Longrightarrow> touch_row t u dn m = m"
  by (simp_all add: touch_row_def)

lemma touch_row_commute:
  "v \<noteq> u \<Longrightarrow> touch_row t v dn' (touch_row t u dn m) = touch_row t u dn (touch_row t v dn' m)"
  by (simp add: touch_row_def)

lemma touch_row_new:
  "touch_row t u dn \<lparr>user_id = u, display_name = Some dn', role = r, first_seen = t, last_seen = t\<rparr>
     = \<lparr>user_id = u, display_name = Some dn, role = r, first_seen = t, last_seen = t\<rparr>"
  by (simp add: touch_row_def)

lemma map_touch_row_absent:
  "u \<notin> user_id ` set xs \<Longrightarrow> map (touch_row t u dn) xs = xs"
  by (induction xs) auto

lemma touch_tables [simp]:
  "snapshots (touch t u dn st) = snapshots st"
  "presence (touch t u dn st) = presence st"
  "seq (touch t u dn st) = seq st"
  "map user_id (members (touch t u dn st)) = map user_id (members st)"
  by (simp_all add: touch_def comp_def)

lemma touch_user_ids [simp]:
  "user_id ` set (members (touch t u dn st)) = user_id ` set (members st)"
  using touch_tables(4)[of t u dn st] by (metis set_map)

lemma upsertMember_alt:
  "upsertMember st u dn r t =
     (if u \<in> user_id ` set (members st) then touch t u dn st
      else st\<lparr>members := members st @
             [\<lparr>user_id = u, display_name = Some dn,
               role = Some (case r of None \<Rightarrow> ''Raider'' | Some x \<Rightarrow> x),
               first_seen = t, last_seen = t\<rparr>]\<rparr>)"
  by (simp add: upsertMember_def touch_def touch_row_def[abs_def])

lemma upsertMember_conflict:
  "u \<in> user_id ` set (members st) \<Longrightarrow> upsertMember st u dn r t = touch t u dn st"
  by (simp add: upsertMember_alt)

lemma touch_touch: "touch t u dn (touch t u dn' st) = touch t u dn st"
  by (simp add: touch_def comp_def)

lemma touch_upsertMember:
  "touch t u dn (upsertMember st u dn' r t) = upsertMember st u dn r t"
proof (cases "u \<in> user_id ` set (members st)")
  case True
  then show ?thesis by (simp add: upsertMember_alt touch_touch)
next
  case False
  then show ?thesis
    by (simp add: upsertMember_alt) (simp add: touch_def map_touch_row_absent touch_row_new)
qed

lemma upsertMember_touch_other:
  assumes "v \<noteq> u"
  shows "upsertMember (touch t u dn st) v dn' r t = touch t u dn (upsertMember st v dn' r t)"
proof (cases "v \<in> user_id ` set (members st)")
  case True
  have "map (touch_row t v dn') (map (touch_row t u dn) xs)
          = map (touch_row t u dn) (map (touch_row t v dn') xs)" for xs
    using assms by (induction xs) (simp_all add: touch_row_commute)
  with True show ?thesis
    by (simp add: upsertMember_alt) (simp add: touch_def)
next
  case False
  with assms show ?thesis
    by (simp add: upsertMember_alt) (simp add: touch_def)
qed

lemma addOccupant_as_store:
  "s \<in> sid ` set (snapshots st) \<Longrightarrow>
   addOccupant s t st gm =
     (let st1 = upsertMember st (gm_id gm) (displayName gm) (Some ''Raider'') t
      in if (s, gm_id gm) \<in> set (presence st) then st1
         else st1\<lparr>presence := presence st @ [(s, gm_id gm)]\<rparr>)"
  by (simp add: addOccupant_def insertPresence_def Let_def)

lemma touch_presence_update:
  "touch t u dn (st\<lparr>presence := ps\<rparr>) = (touch t u dn st)\<lparr>presence := ps\<rparr>"
  by (simp add: touch_def)

lemma addOccupant_known:
  assumes "s \<in> sid ` set (snapshots st)" "gm_id h \<in> user_id ` set (members st)"
    "(s, gm_id h) \<in> set (presence st)"
  shows "addOccupant s t st h = touch t (gm_id h) (displayName h) st"
  using assms by (simp add: addOccupant_as_store upsertMember_conflict)

lemma addOccupant_touch_other:
  assumes "s \<in> sid ` set (snapshots st)" "gm_id k \<noteq> u"
  shows "addOccupant s t (touch t u dn st) k = touch t u dn (addOccupant s t st k)"
  using assms
  by (simp add: addOccupant_as_store upsertMember_touch_other touch_presence_update Let_def)

lemma touch_addOccupant:
  assumes "s \<in> sid ` set (snapshots st)" "gm_id g' = gm_id g"
  shows "touch t (gm_id g) (displayName g') (addOccupant s t st g) = addOccupant s t st g'"
  using assms
  by (simp add: addOccupant_as_store touch_upsertMember touch_presence_update Let_def)

lemma foldl_addOccupant_touch:
  assumes "s \<in> sid ` set (snapshots st)" "\<forall>k \<in> set ks. gm_id k \<noteq> u"
  shows "foldl (addOccupant s t) (touch t u dn st) ks = touch t u dn (foldl (addOccupant s t) st ks)"
  using assms
proof (induction ks arbitrary: st)
  case Nil
  show ?case by simp
next
  case (Cons k ks)
  have s': "s \<in> sid ` set (snapshots (addOccupant s t st k))" using Cons.prems by simp
  show ?case
    using Cons.IH[OF s'] Cons.prems by (simp add: addOccupant_touch_other)
qed

lemma addOccupant_known_after:
  assumes "s \<in> sid ` set (snapshots st)"
  shows "gm_id g \<in> user_id ` set (members (foldl (addOccupant s t) (addOccupant s t st g) gs))"
    and "(s, gm_id g) \<in> set (presence (foldl (addOccupant s t) (addOccupant s t st g) gs))"
  using foldl_addOccupant_tables[OF assms, of t "g # gs"] by auto

lemma foldl_addOccupant_collapse:
  assumes "s \<in> sid ` set (snapshots st)"
  shows "foldl (addOccupant s t) (addOccupant s t st g) gs =
     touch t (gm_id g) (displayName (last (g # filter (\<lambda>h. gm_id h = gm_id g) gs)))
       (foldl (addOccupant s t) (addOccupant s t st g) (filter (\<lambda>h. gm_id h \<noteq> gm_id g) gs))"
proof (induction gs rule: rev_induct)
  case Nil
  show ?case using touch_addOccupant[OF assms, of g g t] by simp
next
  case (snoc h gs)
  let ?X = "foldl (addOccupant s t) (addOccupant s t st g) (filter (\<lambda>h. gm_id h \<noteq> gm_id g) gs)"
  let ?dn = "displayName (last (g # filter (\<lambda>h. gm_id h = gm_id g) gs))"
  have sX: "s \<in> sid ` set (snapshots ?X)" using assms by simp
  have sT: "s \<in> sid ` set (snapshots (touch t (gm_id g) ?dn ?X))" using sX by simp
  show ?case
  proof (cases "gm_id h = gm_id g")
    case True
    have k1: "gm_id h \<in> user_id ` set (members (touch t (gm_id g) ?dn ?X))"
      using addOccupant_known_after(1)[OF assms, of g t] True by simp
    have k2: "(s, gm_id h) \<in> set (presence (touch t (gm_id g) ?dn ?X))"
      using addOccupant_known_after(2)[OF assms, of g t] True by simp
    show ?thesis
      using snoc.IH addOccupant_known[OF sT k1 k2, of t] True
      by (simp add: touch_touch)
  next
    case False
    show ?thesis
      using snoc.IH addOccupant_touch_other[OF sX False, of t ?dn] False
      by simp
  qed
qed

lemma last_same_id:
  "gm_id (last (g # filter (\<lambda>h. gm_id h = gm_id g) gs)) = gm_id g"
proof -
  have "last (g # filter (\<lambda>h. gm_id h = gm_id g) gs) \<in> set (g # filter (\<lambda>h. gm_id h = gm_id g) gs)"
    by (rule last_in_set) simp
  then show ?thesis by auto
qed

lemma foldl_addOccupant_dedup:
  "s \<in> sid ` set (snapshots st) \<Longrightarrow>
   foldl (addOccupant s t) st (dedupOccupants gs) = foldl (addOccupant s t) st gs"
proof (induction gs arbitrary: st rule: dedupOccupants.induct)
  case 1
  show ?case by simp
next
  case (2 g gs)
  let ?g' = "last (g # filter (\<lambda>h. gm_id h = gm_id g) gs)"
  let ?gs' = "filter (\<lambda>h. gm_id h \<noteq> gm_id g) gs"
  have id: "gm_id ?g' = gm_id g" by (rule last_same_id)
  have s1: "s \<in> sid ` set (snapshots (addOccupant s t st ?g'))"
    and s2: "s \<in> sid ` set (snapshots (addOccupant s t st g))"
    using "2.prems" by simp_all
  have "foldl (addOccupant s t) st (dedupOccupants (g # gs))
          = foldl (addOccupant s t) (addOccupant s t st ?g') (dedupOccupants ?gs')"
    by simp
  also have "\<dots> = foldl (addOccupant s t) (addOccupant s t st ?g') ?gs'"
    using "2.IH"[OF s1] .
  also have "\<dots> = foldl (addOccupant s t) (touch t (gm_id g) (displayName ?g') (addOccupant s t st g)) ?gs'"
    using touch_addOccupant[OF "2.prems" id, of t] by simp
  also have "\<dots> = touch t (gm_id g) (displayName ?g') (foldl (addOccupant s t) (addOccupant s t st g) ?gs')"
    by (rule foldl_addOccupant_touch[OF s2]) simp
  also have "\<dots> = foldl (addOccupant s t) (addOccupant s t st g) gs"
    using foldl_addOccupant_collapse[OF "2.prems", of t g gs] by simp
  finally show ?case by simp
qed

lemma recordSnapshot_dedup:
  "recordSnapshot e st t (dedupOccupants gms) = recordSnapshot e st t gms"
proof -
  have "Suc (seq st) \<in> sid ` set (snapshots (fst (insertSnapshot st t (GUILD_ID e) (VOICE_CHANNEL_ID e))))"
    by (simp add: insertSnapshot_fst)
  then show ?thesis
    by (simp add: recordSnapshot_def split_beta insertSnapshot_snd foldl_addOccupant_dedup)
qed

lemma dedupOccupants_ids:
  "gm_id ` set (dedupOccupants gs) = gm_id ` set gs \<and> distinct (map gm_id (dedupOccupants gs))
   \<and> set (dedupOccupants gs) \<subseteq> set gs"
proof (induction gs rule: dedupOccupants.induct)
  case 1
  show ?case by simp
next
  case (2 g gs)
  define g' where "g' = last (g # filter (\<lambda>h. gm_id h = gm_id g) gs)"
  define ds where "ds = dedupOccupants (filter (\<lambda>h. gm_id h \<noteq> gm_id g) gs)"
  have eq: "dedupOccupants (g # gs) = g' # ds"
    by (simp add: g'_def ds_def)
  have id: "gm_id g' = gm_id g" unfolding g'_def by (rule last_same_id)
  have "g' \<in> set (g # filter (\<lambda>h. gm_id h = gm_id g) gs)"
    unfolding g'_def by (rule last_in_set) simp
  then have mem: "g' \<in> set (g # gs)" by auto
  from 2 have ih1: "gm_id ` set ds = gm_id ` {h \<in> set gs. gm_id h \<noteq> gm_id g}"
    and ih2: "distinct (map gm_id ds)"
    and ih3: "set ds \<subseteq> {h \<in> set gs. gm_id h \<noteq> gm_id g}"
    unfolding ds_def by simp_all
  have a: "gm_id ` set (g' # ds) = gm_id ` set (g # gs)"
    using ih1 id by auto
  have b: "distinct (map gm_id (g' # ds))"
    using ih1 ih2 id by auto
  have c: "set (g' # ds) \<subseteq> set (g # gs)"
    using ih3 mem by auto
  show ?case unfolding eq using a b c by blast
qed

lemma count_list_distinct_1:
  "distinct xs \<Longrightarrow> x \<in> set xs \<Longrightarrow> count_list xs x = 1"
  by (induction xs) (auto simp: count_list_0_iff)

section \<open>Duplicate occupants collapse\<close>

text \<open>
  Claim C7. Recording an occupant list that names a member more than once does no harm:
  from a store the program can reach, the cycle (without storage failure) succeeds, the
  presence table holds exactly one row for the new snapshot and each member of the list,
  and the store is the one that the list without duplicates gives. That list,
  \<open>dedupOccupants\<close>, has one entry per member, taken from the list, in the order of the
  first entries; where the entries of a member differ in the display name it is the last
  one, since the upsert lets the last name win.
\<close>

theorem duplicate_occupants_collapse:
  assumes "reachable e st"
  shows "sampleVoiceChannel e no_failure t (Voice gms) st
           = (recordSnapshot e st t gms, Saved (length gms))
     \<and> (\<forall>gm \<in> set gms.
           count_list (presence (recordSnapshot e st t gms)) (Suc (seq st), gm_id gm) = 1)
     \<and> recordSnapshot e st t gms = recordSnapshot e st t (dedupOccupants gms)
     \<and> distinct (map gm_id (dedupOccupants gms))
     \<and> gm_id ` set (dedupOccupants gms) = gm_id ` set gms
     \<and> set (dedupOccupants gms) \<subseteq> set gms"
proof -
  have inv: "store_inv st" using assms by (rule reachable_store_inv)
  have ok: "sampleVoiceChannel e no_failure t (Voice gms) st
              = (recordSnapshot e st t gms, Saved (length gms))"
    by (rule sampleVoiceChannel_no_failure) (simp add: no_failure_def)
  have one: "count_list (presence (recordSnapshot e st t gms)) (Suc (seq st), gm_id gm) = 1"
    if "gm \<in> set gms" for gm
  proof (rule count_list_distinct_1)
    show "distinct (presence (recordSnapshot e st t gms))"
      by (rule recordSnapshot_tables(3)[OF inv])
    show "(Suc (seq st), gm_id gm) \<in> set (presence (recordSnapshot e st t gms))"
      unfolding recordSnapshot_tables(2)[OF inv] using that by simp
  qed
  show ?thesis
    using ok one recordSnapshot_dedup[of e st t gms] dedupOccupants_ids[of gms] by simp
qed

theorem duplicate_occupants_collapse_witness:
  "reachable utc_env store_june
   \<and> dedupOccupants [ann, bob, ann_renamed] = [ann_renamed, bob]
   \<and> sampleVoiceChannel utc_env no_failure 1720000000000 (Voice [ann, bob, ann_renamed]) store_june
       = (recordSnapshot utc_env store_june 1720000000000 [ann_renamed, bob], Saved 3)
   \<and> count_list (presence (recordSnapshot utc_env store_june 1720000000000 [ann, bob, ann_renamed]))
        (2, ''1001'') = 1"
proof -
  have r: "reachable utc_env store_june" by (rule reachable_store_june)
  have d: "dedupOccupants [ann, bob, ann_renamed] = [ann_renamed, bob]"
    by (simp add: ann_def bob_def ann_renamed_def)
  have s: "Suc (seq store_june) = 2" by (simp add: store_june_eq)
  have i: "gm_id ann = ''1001''" by (simp add: ann_def)
  note th = duplicate_occupants_collapse[OF r, where t = 1720000000000 and gms = "[ann, bob, ann_renamed]"]
  have m: "ann \<in> set [ann, bob, ann_renamed]" by simp
  have one: "count_list (presence (recordSnapshot utc_env store_june 1720000000000 [ann, bob, ann_renamed]))
        (2, ''1001'') = 1"
    using th[THEN conjunct2, THEN conjunct1, rule_format, OF m] unfolding s i .
  have same: "recordSnapshot utc_env store_june 1720000000000 [ann, bob, ann_renamed]
                = recordSnapshot utc_env store_june 1720000000000 [ann_renamed, bob]"
    using th[THEN conjunct2, THEN conjunct2, THEN conjunct1] unfolding d .
  have run: "sampleVoiceChannel utc_env no_failure 1720000000000 (Voice [ann, bob, ann_renamed]) store_june
       = (recordSnapshot utc_env store_june 1720000000000 [ann_renamed, bob], Saved 3)"
    using th[THEN conjunct1] unfolding same by simp
  show ?thesis
    using r d run one by blast
qed

section \<open>Lemmas: the tables after a complete write\<close>

lemma last_entry_absent: "u \<notin> gm_id ` set ds \<Longrightarrow> last_entry ds u = None"
proof -
  assume "u \<notin> gm_id ` set ds"
  then have "filter (\<lambda>g. gm_id g = u) ds = []" by (auto simp: filter_empty_conv)
  then show ?thesis by (simp add: last_entry_def)
qed

lemma other_id: "u \<notin> gm_id ` set ds \<Longrightarrow> h \<in> set ds \<Longrightarrow> gm_id h \<noteq> u"
  by auto

lemma last_entry_Cons_distinct:
  assumes "gm_id g \<notin> gm_id ` set ds"
  shows "last_entry (g # ds) u = (if gm_id g = u then Some g else last_entry ds u)"
proof (cases "gm_id g = u")
  case True
  with assms have "filter (\<lambda>h. gm_id h = u) ds = []"
    by (auto simp: filter_empty_conv dest: other_id)
  with True show ?thesis by (simp add: last_entry_def)
next
  case False
  then show ?thesis by (simp add: last_entry_def)
qed

lemma last_entry_dedup: "last_entry (dedupOccupants gs) u = last_entry gs u"
proof (induction gs rule: dedupOccupants.induct)
  case 1
  show ?case by simp
next
  case (2 g gs)
  define g' where "g' = last (g # filter (\<lambda>h. gm_id h = gm_id g) gs)"
  define gs' where "gs' = filter (\<lambda>h. gm_id h \<noteq> gm_id g) gs"
  have eq: "dedupOccupants (g # gs) = g' # dedupOccupants gs'"
    by (simp add: g'_def gs'_def)
  have id: "gm_id g' = gm_id g" unfolding g'_def by (rule last_same_id)
  have "gm_id ` set (dedupOccupants gs') = gm_id ` set gs'"
    using dedupOccupants_ids[of gs'] by blast
  then have fresh: "gm_id g' \<notin> gm_id ` set (dedupOccupants gs')"
    unfolding id gs'_def by auto
  have ih: "last_entry (dedupOccupants gs') u = last_entry gs' u"
    using 2 unfolding gs'_def .
  show ?case
  proof (cases "gm_id g = u")
    case True
    have "last_entry (g # gs) u = Some g'"
      using True by (simp add: last_entry_def g'_def)
    then show ?thesis
      unfolding eq last_entry_Cons_distinct[OF fresh] using True id by simp
  next
    case False
    have "filter (\<lambda>h. gm_id h = u) gs' = filter (\<lambda>h. gm_id h = u) gs"
      unfolding gs'_def using False by (induction gs) auto
    then have "last_entry gs' u = last_entry (g # gs) u"
      using False by (simp add: last_entry_def)
    then show ?thesis
      unfolding eq last_entry_Cons_distinct[OF fresh] using False id ih by simp
  qed
qed

lemma seen_again_Cons_distinct:
  assumes "gm_id g \<notin> gm_id ` set ds"
  shows "seen_again t (g # ds) m =
     (if gm_id g = user_id m then m\<lparr>display_name := Some (displayName g), last_seen := t\<rparr>
      else seen_again t ds m)"
  by (simp add: seen_again_def last_entry_Cons_distinct[OF assms])

lemma seen_again_absent:
  "user_id m \<notin> gm_id ` set ds \<Longrightarrow> seen_again t ds m = m"
  by (simp add: seen_again_def last_entry_absent)

lemma seen_again_dedup: "seen_again t (dedupOccupants gs) = seen_again t gs"
  by (rule ext) (simp add: seen_again_def last_entry_dedup)

lemma members_addOccupant_cases:
  assumes "s \<in> sid ` set (snapshots st)"
  shows "members (addOccupant s t st g) =
     (if gm_id g \<in> user_id ` set (members st)
      then map (touch_row t (gm_id g) (displayName g)) (members st)
      else members st @ [new_member t g])"
  by (simp add: members_addOccupant[OF assms] upsertMember_alt touch_def new_member_def)

lemma foldl_addOccupant_distinct:
  assumes "s \<in> sid ` set (snapshots st)" "distinct (map gm_id ds)"
    "\<forall>g \<in> set ds. (s, gm_id g) \<notin> set (presence st)"
  shows "members (foldl (addOccupant s t) st ds) =
           map (seen_again t ds) (members st)
           @ map (new_member t) (filter (\<lambda>g. gm_id g \<notin> user_id ` set (members st)) ds)
       \<and> presence (foldl (addOccupant s t) st ds) = presence st @ map (\<lambda>g. (s, gm_id g)) ds"
  using assms
proof (induction ds arbitrary: st)
  case Nil
  have "map (seen_again t []) (members st) = members st"
    by (rule map_idI) (simp add: seen_again_absent)
  then show ?case by simp
next
  case (Cons g ds)
  let ?st2 = "addOccupant s t st g"
  have fresh: "gm_id g \<notin> gm_id ` set ds" and dis: "distinct (map gm_id ds)"
    using Cons.prems(2) by auto
  have s2: "s \<in> sid ` set (snapshots ?st2)" using Cons.prems(1) by simp
  have p2: "presence ?st2 = presence st @ [(s, gm_id g)]"
    using Cons.prems(3) by (simp add: presence_addOccupant[OF Cons.prems(1)])
  have np: "\<forall>h \<in> set ds. (s, gm_id h) \<notin> set (presence ?st2)"
    unfolding p2 using Cons.prems(3) fresh by (auto dest: other_id)
  note ih = Cons.IH[OF s2 dis np]
  have pres: "presence (foldl (addOccupant s t) st (g # ds))
                = presence st @ map (\<lambda>g. (s, gm_id g)) (g # ds)"
    using ih p2 by simp
  have mem: "members (foldl (addOccupant s t) st (g # ds)) =
           map (seen_again t (g # ds)) (members st)
           @ map (new_member t) (filter (\<lambda>h. gm_id h \<notin> user_id ` set (members st)) (g # ds))"
  proof (cases "gm_id g \<in> user_id ` set (members st)")
    case True
    have m2: "members ?st2 = map (touch_row t (gm_id g) (displayName g)) (members st)"
      using True by (simp add: members_addOccupant_cases[OF Cons.prems(1)])
    have ids2: "user_id ` set (members ?st2) = user_id ` set (members st)"
      unfolding m2 by (simp add: image_image)
    have row: "seen_again t ds (touch_row t (gm_id g) (displayName g) m) = seen_again t (g # ds) m"
      for m
    proof (cases "user_id m = gm_id g")
      case True
      then have "user_id (touch_row t (gm_id g) (displayName g) m) \<notin> gm_id ` set ds"
        using fresh by simp
      then show ?thesis
        using True by (simp add: seen_again_absent seen_again_Cons_distinct[OF fresh] touch_row_def)
    next
      case False
      then show ?thesis
        by (simp add: seen_again_Cons_distinct[OF fresh])
    qed
    show ?thesis
      using ih True unfolding ids2 by (simp add: m2 row)
  next
    case False
    have m2: "members ?st2 = members st @ [new_member t g]"
      using False by (simp add: members_addOccupant_cases[OF Cons.prems(1)])
    have ids2: "user_id ` set (members ?st2) = insert (gm_id g) (user_id ` set (members st))"
      unfolding m2 by (simp add: new_member_def)
    have old: "map (seen_again t ds) (members st) = map (seen_again t (g # ds)) (members st)"
      using False by (intro map_cong) (auto simp: seen_again_Cons_distinct[OF fresh])
    have new: "seen_again t ds (new_member t g) = new_member t g"
      using fresh by (simp add: seen_again_absent new_member_def)
    have flt: "filter (\<lambda>h. gm_id h \<notin> insert (gm_id g) (user_id ` set (members st))) ds
                 = filter (\<lambda>h. gm_id h \<notin> user_id ` set (members st)) ds"
      using fresh by (intro filter_cong) (auto dest: other_id)
    show ?thesis
      using ih False unfolding ids2 flt by (simp add: m2 old new)
  qed
  show ?case using mem pres by blast
qed

lemma recordSnapshot_explicit:
  assumes "store_inv st"
  shows "recordSnapshot e st t gms =
     \<lparr>members = map (seen_again t gms) (members st)
                 @ map (new_member t)
                     (filter (\<lambda>g. gm_id g \<notin> user_id ` set (members st)) (dedupOccupants gms)),
      snapshots = snapshots st @ [\<lparr>sid = Suc (seq st), ts = t, guild_id = GUILD_ID e,
                                     channel_id = VOICE_CHANNEL_ID e\<rparr>],
      presence = presence st @ map (\<lambda>g. (Suc (seq st), gm_id g)) (dedupOccupants gms),
      seq = Suc (seq st)\<rparr>"
proof -
  let ?st1 = "fst (insertSnapshot st t (GUILD_ID e) (VOICE_CHANNEL_ID e))"
  let ?i = "Suc (seq st)"
  let ?ds = "dedupOccupants gms"
  have eq: "recordSnapshot e st t gms = foldl (addOccupant ?i t) ?st1 ?ds"
    unfolding recordSnapshot_dedup[of e st t gms, symmetric]
    by (simp add: recordSnapshot_def split_beta insertSnapshot_snd)
  have mem: "?i \<in> sid ` set (snapshots ?st1)"
    by (simp add: insertSnapshot_fst)
  have dis: "distinct (map gm_id ?ds)" using dedupOccupants_ids[of gms] by blast
  have "\<forall>p \<in> set (presence st). fst p \<noteq> ?i"
    by (rule recordSnapshot_tables(4)[OF assms])
  then have np: "\<forall>g \<in> set ?ds. (?i, gm_id g) \<notin> set (presence ?st1)"
    by (auto simp: insertSnapshot_fst)
  note f = foldl_addOccupant_distinct[OF mem dis np, of t]
  have st1: "members ?st1 = members st" "presence ?st1 = presence st"
    by (simp_all add: insertSnapshot_fst)
  have m: "members (foldl (addOccupant ?i t) ?st1 ?ds) =
             map (seen_again t gms) (members st)
             @ map (new_member t) (filter (\<lambda>g. gm_id g \<notin> user_id ` set (members st)) ?ds)"
    using f[THEN conjunct1] unfolding st1 seen_again_dedup .
  have p: "presence (foldl (addOccupant ?i t) ?st1 ?ds)
             = presence st @ map (\<lambda>g. (?i, gm_id g)) ?ds"
    using f[THEN conjunct2] unfolding st1 .
  have sn: "snapshots (foldl (addOccupant ?i t) ?st1 ?ds)
              = snapshots st @ [\<lparr>sid = ?i, ts = t, guild_id = GUILD_ID e,
                                  channel_id = VOICE_CHANNEL_ID e\<rparr>]"
    and sq: "seq (foldl (addOccupant ?i t) ?st1 ?ds) = ?i"
    by (simp_all add: insertSnapshot_fst)
  show ?thesis
    unfolding eq
    by (rule store.equality) (simp_all add: m p sn sq del: foldl_addOccupant_snapshots foldl_addOccupant_seq)
qed

lemma last_entry_distinct:
  "distinct (map gm_id ds) \<Longrightarrow> g \<in> set ds \<Longrightarrow> last_entry ds (gm_id g) = Some g"
proof (induction ds)
  case Nil
  then show ?case by simp
next
  case (Cons d ds)
  then have fresh: "gm_id d \<notin> gm_id ` set ds" by auto
  show ?case
  proof (cases "g = d")
    case True
    then show ?thesis by (simp add: last_entry_Cons_distinct[OF fresh])
  next
    case False
    with Cons.prems have g: "g \<in> set ds" by simp
    then have "gm_id d \<noteq> gm_id g" using fresh by (metis imageI)
    with Cons g show ?thesis by (simp add: last_entry_Cons_distinct[OF fresh])
  qed
qed

lemma dedupOccupants_last_entry:
  "g \<in> set (dedupOccupants gms) \<Longrightarrow> last_entry gms (gm_id g) = Some g"
  using last_entry_distinct[of "dedupOccupants gms" g] dedupOccupants_ids[of gms]
  by (simp add: last_entry_dedup)

section \<open>A cycle writes everything or nothing\<close>

text \<open>
  Claim C2. The write of a sampling cycle is atomic. From a store the program can reach, a
  cycle whose fetch fails or whose channel is no voice channel leaves the store as it is;
  a cycle on a voice channel leaves the store as it is and reports the failure when any of
  its statements fails (BEGIN, the snapshot insert, an upsert, a presence insert or COMMIT),
  and otherwise ends in the store of the complete write, which is given in full: every
  member row of an occupant carries the display name of the occupant's last entry and the
  time of the cycle, every other member row is as before, the occupants seen for the first
  time follow as new rows, there is exactly one new snapshot row, with the next id, and
  the new presence rows are one per distinct occupant, for the new snapshot. No other store
  can result, so a reader never finds a snapshot without its full occupant set.
\<close>

theorem sample_all_or_nothing:
  assumes "reachable e st"
  shows "sampleVoiceChannel e F t FetchError st = (st, Failed AdapterFailure)
     \<and> sampleVoiceChannel e F t NotVoice st = (st, Warned)
     \<and> sampleVoiceChannel e F t (Voice gms) st =
         (if \<exists>k \<le> 2 * length gms + 2. F k then (st, Failed StorageFailure)
          else (recordSnapshot e st t gms, Saved (length gms)))
     \<and> recordSnapshot e st t gms =
         \<lparr>members = map (seen_again t gms) (members st)
                     @ map (new_member t)
                         (filter (\<lambda>g. gm_id g \<notin> user_id ` set (members st)) (dedupOccupants gms)),
          snapshots = snapshots st @ [\<lparr>sid = Suc (seq st), ts = t, guild_id = GUILD_ID e,
                                         channel_id = VOICE_CHANNEL_ID e\<rparr>],
          presence = presence st @ map (\<lambda>g. (Suc (seq st), gm_id g)) (dedupOccupants gms),
          seq = Suc (seq st)\<rparr>
     \<and> distinct (map gm_id (dedupOccupants gms))
     \<and> gm_id ` set (dedupOccupants gms) = gm_id ` set gms
     \<and> (\<forall>g \<in> set (dedupOccupants gms). last_entry gms (gm_id g) = Some g)
     \<and> snapshots (recordSnapshot e st t gms) =
         snapshots st @ [\<lparr>sid = Suc (seq st), ts = t, guild_id = GUILD_ID e,
                           channel_id = VOICE_CHANNEL_ID e\<rparr>]
     \<and> user_id ` set (members (recordSnapshot e st t gms))
         = user_id ` set (members st) \<union> gm_id ` set gms
     \<and> set (presence (recordSnapshot e st t gms))
         = set (presence st) \<union> {Suc (seq st)} \<times> gm_id ` set gms
     \<and> distinct (presence (recordSnapshot e st t gms))
     \<and> (\<forall>p \<in> set (presence st). fst p \<noteq> Suc (seq st))"
proof -
  have inv: "store_inv st" using assms by (rule reachable_store_inv)
  have a: "sampleVoiceChannel e F t FetchError st = (st, Failed AdapterFailure)"
    and b: "sampleVoiceChannel e F t NotVoice st = (st, Warned)"
    by (simp_all add: sampleVoiceChannel_def)
  note c = sampleVoiceChannel_Voice[of e F t gms st]
  note d = recordSnapshot_explicit[OF inv, of e t gms]
  have i: "distinct (map gm_id (dedupOccupants gms))"
    "gm_id ` set (dedupOccupants gms) = gm_id ` set gms"
    using dedupOccupants_ids[of gms] by blast+
  have l: "\<forall>g \<in> set (dedupOccupants gms). last_entry gms (gm_id g) = Some g"
    by (simp add: dedupOccupants_last_entry)
  note tb = recordSnapshot_tables[OF inv]
  show ?thesis
    by (intro conjI a b c d i l tb)
qed

lemma store_june_annie_carol:
  "\<lparr>members = map (seen_again 1720000000000 [ann, carol, ann_renamed]) (members store_june)
               @ map (new_member 1720000000000)
                   (filter (\<lambda>g. gm_id g \<notin> user_id ` set (members store_june))
                      (dedupOccupants [ann, carol, ann_renamed])),
    snapshots = snapshots store_june @ [\<lparr>sid = Suc (seq store_june), ts = 1720000000000,
                  guild_id = GUILD_ID utc_env, channel_id = VOICE_CHANNEL_ID utc_env\<rparr>],
    presence = presence store_june
               @ map (\<lambda>g. (Suc (seq store_june), gm_id g)) (dedupOccupants [ann, carol, ann_renamed]),
    seq = Suc (seq store_june)\<rparr>
   = \<lparr>members =
        [\<lparr>user_id = ''1001'', display_name = Some ''Annie'', role = Some ''Raider'',
          first_seen = 1718000000000, last_seen = 1720000000000\<rparr>,
         \<lparr>user_id = ''1002'', display_name = Some ''bob'', role = Some ''Raider'',
          first_seen = 1718000000000, last_seen = 1718000000000\<rparr>,
         \<lparr>user_id = ''1003'', display_name = Some ''1003'', role = Some ''Raider'',
          first_seen = 1720000000000, last_seen = 1720000000000\<rparr>],
      snapshots =
        [\<lparr>sid = 1, ts = 1718000000000, guild_id = ''guild'', channel_id = ''voice''\<rparr>,
         \<lparr>sid = 2, ts = 1720000000000, guild_id = ''guild'', channel_id = ''voice''\<rparr>],
      presence = [(1, ''1001''), (1, ''1002''), (2, ''1001''), (2, ''1003'')],
      seq = 2\<rparr>"
  by code_simp

theorem sample_all_or_nothing_witness:
  "reachable utc_env store_june
   \<and> sampleVoiceChannel utc_env (\<lambda>k. k = 4) 1720000000000 (Voice [ann, carol, ann_renamed]) store_june
       = (store_june, Failed StorageFailure)
   \<and> sampleVoiceChannel utc_env no_failure 1720000000000 (Voice [ann, carol, ann_renamed]) store_june
       = (\<lparr>members =
            [\<lparr>user_id = ''1001'', display_name = Some ''Annie'', role = Some ''Raider'',
              first_seen = 1718000000000, last_seen = 1720000000000\<rparr>,
             \<lparr>user_id = ''1002'', display_name = Some ''bob'', role = Some ''Raider'',
              first_seen = 1718000000000, last_seen = 1718000000000\<rparr>,
             \<lparr>user_id = ''1003'', display_name = Some ''1003'', role = Some ''Raider'',
              first_seen = 1720000000000, last_seen = 1720000000000\<rparr>],
          snapshots =
            [\<lparr>sid = 1, ts = 1718000000000, guild_id = ''guild'', channel_id = ''voice''\<rparr>,
             \<lparr>sid = 2, ts = 1720000000000, guild_id = ''guild'', channel_id = ''voice''\<rparr>],
          presence = [(1, ''1001''), (1, ''1002''), (2, ''1001''), (2, ''1003'')],
          seq = 2\<rparr>, Saved 3)"
proof -
  have r: "reachable utc_env store_june" by (rule reachable_store_june)
  have a: "\<exists>k \<le> 2 * length [ann, carol, ann_renamed] + 2. k = (4::nat)" by simp
  have b: "\<not> (\<exists>k \<le> 2 * length [ann, carol, ann_renamed] + 2. no_failure k)"
    by (simp add: no_failure_def)
  note bad = sample_all_or_nothing[OF r, where F = "\<lambda>k. k = 4" and t = 1720000000000
      and gms = "[ann, carol, ann_renamed]", THEN conjunct2, THEN conjunct2, THEN conjunct1]
  note good = sample_all_or_nothing[OF r, where F = no_failure and t = 1720000000000
      and gms = "[ann, carol, ann_renamed]", THEN conjunct2, THEN conjunct2]
  have x: "sampleVoiceChannel utc_env (\<lambda>k. k = 4) 1720000000000 (Voice [ann, carol, ann_renamed])
             store_june = (store_june, Failed StorageFailure)"
    unfolding bad using a by (simp only: if_True)
  have y: "sampleVoiceChannel utc_env no_failure 1720000000000 (Voice [ann, carol, ann_renamed])
             store_june = (recordSnapshot utc_env store_june 1720000000000 [ann, carol, ann_renamed],
                           Saved 3)"
    unfolding good[THEN conjunct1] using b by simp
  show ?thesis
    using r x y[unfolded good[THEN conjunct2, THEN conjunct1] store_june_annie_carol] by blast
qed

section \<open>Lemmas: the rows of a summary\<close>

lemma mset_insert_sorted: "mset (insert_sorted cmp x ys) = add_mset x (mset ys)"
  by (induction ys) simp_all

lemma mset_array_sort: "mset (array_sort cmp xs) = mset xs"
  unfolding array_sort_def by (induction xs) (simp_all add: mset_insert_sorted)

lemma set_array_sort: "set (array_sort cmp xs) = set xs"
  using mset_array_sort[of cmp xs] by (metis set_mset_mset)

lemma set_insert_sorted: "set (insert_sorted cmp x ys) = insert x (set ys)"
  using mset_insert_sorted[of cmp x ys] by (metis set_mset_mset set_mset_add_mset_insert)

lemma sorted_insert_sorted:
  assumes "sorted_wrt (\<lambda>a b. pct_or_minus1 b \<le> pct_or_minus1 a) ys"
  shows "sorted_wrt (\<lambda>a b. pct_or_minus1 b \<le> pct_or_minus1 a) (insert_sorted compareRows x ys)"
  using assms
proof (induction ys)
  case Nil
  show ?case by simp
next
  case (Cons y ys)
  show ?case
  proof (cases "compareRows x y \<le> 0")
    case True
    then have xy: "pct_or_minus1 y \<le> pct_or_minus1 x" by (simp add: compareRows_def)
    with Cons.prems True show ?thesis by auto
  next
    case False
    then have yx: "pct_or_minus1 x \<le> pct_or_minus1 y" by (simp add: compareRows_def)
    with Cons False show ?thesis by (auto simp: set_insert_sorted)
  qed
qed

lemma sorted_array_sort:
  "sorted_wrt (\<lambda>a b. pct_or_minus1 b \<le> pct_or_minus1 a) (array_sort compareRows xs)"
  unfolding array_sort_def by (induction xs) (simp_all add: sorted_insert_sorted)

lemma rows_summaryPayload:
  "rows (summaryPayload e st ymc) =
     array_sort compareRows
       (map (make_row (sum_ym (summaryPayload e st ymc)) (sum_ymPrev (summaryPayload e st ymc))
               (computeAttendance e st (Some (sum_ym (summaryPayload e st ymc))))
               (computeAttendance e st (Some (sum_ymPrev (summaryPayload e st ymc)))))
            (qMembers st))"
  by (simp add: summaryPayload_def Let_def)

lemma lists_summaryPayload:
  "below50 (summaryPayload e st ymc)
     = map name (filter (\<lambda>r. under50 (flags r)) (rows (summaryPayload e st ymc)))"
  "below75 (summaryPayload e st ymc)
     = map name (filter (\<lambda>r. under75 (flags r) \<and> \<not> under50 (flags r)) (rows (summaryPayload e st ymc)))"
  by (simp_all add: summaryPayload_def Let_def)

lemma make_row_fields:
  "userId (make_row a b tm lm m) = user_id m"
  "pct (thisMonth (make_row a b tm lm m)) = pct_of (get_or_0 (presentMap tm) (user_id m)) (totalN tm)"
  "pct (lastMonth (make_row a b tm lm m)) = pct_of (get_or_0 (presentMap lm) (user_id m)) (totalN lm)"
  "present (thisMonth (make_row a b tm lm m)) = get_or_0 (presentMap tm) (user_id m)"
  "present (lastMonth (make_row a b tm lm m)) = get_or_0 (presentMap lm) (user_id m)"
  "total_snapshots (thisMonth (make_row a b tm lm m)) = totalN tm"
  "total_snapshots (lastMonth (make_row a b tm lm m)) = totalN lm"
  "ym (thisMonth (make_row a b tm lm m)) = a"
  "ym (lastMonth (make_row a b tm lm m)) = b"
  "under50 (flags (make_row a b tm lm m)) = pct_below (pct (thisMonth (make_row a b tm lm m))) (1 / 2)"
  "under75 (flags (make_row a b tm lm m)) = pct_below (pct (thisMonth (make_row a b tm lm m))) (3 / 4)"
  by (simp_all add: make_row_def Let_def)

lemma row_of_summary:
  assumes "r \<in> set (rows (summaryPayload e st ymc))"
  obtains m where "m \<in> set (members st)"
    and "r = make_row (sum_ym (summaryPayload e st ymc)) (sum_ymPrev (summaryPayload e st ymc))
               (computeAttendance e st (Some (sum_ym (summaryPayload e st ymc))))
               (computeAttendance e st (Some (sum_ymPrev (summaryPayload e st ymc)))) m"
  using assms unfolding rows_summaryPayload set_array_sort qMembers_def by auto

lemma computeAttendance_fields:
  "totalN (computeAttendance e st key)
     = qTotalSnapshotsInRange st (monthBounds e key) (VOICE_CHANNEL_ID e) (GUILD_ID e)"
  "get_or_0 (presentMap (computeAttendance e st key)) u
     = count_list (joined_users st (monthBounds e key) (VOICE_CHANNEL_ID e) (GUILD_ID e)) u"
  by (simp_all add: computeAttendance_def Let_def presentMap_lookup)

section \<open>Lemmas: the summaries of the small history\<close>

lemma bounds_july: "monthBounds utc_env (Some ''2024-07'') = Some (1719792000000, 1722470399999)"
  by (simp add: monthBounds_def base_of_def truthy_def dayjs_parse_def is_digit_def digit_of_def
      number_of_def MakeFullYear_def MakeDay_def utc_env_def days_from_civil_def)

lemma bounds_june: "monthBounds utc_env (Some ''2024-06'') = Some (1717200000000, 1719791999999)"
  by (simp add: monthBounds_def base_of_def truthy_def dayjs_parse_def is_digit_def digit_of_def
      number_of_def MakeFullYear_def MakeDay_def utc_env_def days_from_civil_def)

lemma last_july: "lastMonthYM utc_env (Some ''2024-07'') = ''2024-06''"
  by (simp add: lastMonthYM_def base_of_def truthy_def dayjs_parse_def is_digit_def digit_of_def
      number_of_def MakeFullYear_def MakeDay_def subtract_month_def format_YYYY_MM_def padStart_def
      show_int_def show_nat.simps)

lemma now_july: "format_YYYY_MM (Some (now_local utc_env)) = ''2024-07''"
  by (simp add: format_YYYY_MM_def padStart_def show_int_def show_nat.simps utc_env_def)

lemma utc_env_ids: "VOICE_CHANNEL_ID utc_env = ''voice''" "GUILD_ID utc_env = ''guild''"
  by (simp_all add: utc_env_def)

lemma att_june_in_july:
  "totalN (computeAttendance utc_env store_june (Some ''2024-07'')) = 0"
  "totalN (computeAttendance utc_env store_june (Some ''2024-06'')) = 1"
  by (simp_all add: computeAttendance_fields bounds_july bounds_june qTotalSnapshotsInRange_def
      in_range_def store_june_eq utc_env_ids)

lemma summary_june:
  "rows (summaryPayload utc_env store_june (Some ''2024-07'')) =
     [\<lparr>userId = ''1001'', name = ''Ann'', row_role = ''Raider'',
       thisMonth = \<lparr>ym = ''2024-07'', present = 0, total_snapshots = 0, pct = None\<rparr>,
       lastMonth = \<lparr>ym = ''2024-06'', present = 1, total_snapshots = 1, pct = Some 1\<rparr>,
       flags = \<lparr>under50 = False, under75 = False\<rparr>\<rparr>,
      \<lparr>userId = ''1002'', name = ''bob'', row_role = ''Raider'',
       thisMonth = \<lparr>ym = ''2024-07'', present = 0, total_snapshots = 0, pct = None\<rparr>,
       lastMonth = \<lparr>ym = ''2024-06'', present = 1, total_snapshots = 1, pct = Some 1\<rparr>,
       flags = \<lparr>under50 = False, under75 = False\<rparr>\<rparr>]"
  by code_simp

lemma summary_july:
  "summaryPayload utc_env store_july None =
   \<lparr>sum_ym = ''2024-07'', sum_ymPrev = ''2024-06'', totals = (3, 1),
    rows =
      [\<lparr>userId = ''1001'', name = ''Ann'', row_role = ''Raider'',
        thisMonth = \<lparr>ym = ''2024-07'', present = 2, total_snapshots = 3, pct = Some (2 / 3)\<rparr>,
        lastMonth = \<lparr>ym = ''2024-06'', present = 1, total_snapshots = 1, pct = Some 1\<rparr>,
        flags = \<lparr>under50 = False, under75 = True\<rparr>\<rparr>,
       \<lparr>userId = ''1002'', name = ''bob'', row_role = ''Raider'',
        thisMonth = \<lparr>ym = ''2024-07'', present = 1, total_snapshots = 3, pct = Some (1 / 3)\<rparr>,
        lastMonth = \<lparr>ym = ''2024-06'', present = 1, total_snapshots = 1, pct = Some 1\<rparr>,
        flags = \<lparr>under50 = True, under75 = True\<rparr>\<rparr>],
    below50 = [''bob''], below75 = [''Ann'']\<rparr>"
  by code_simp

section \<open>Percentages\<close>

text \<open>
  Claim C1. In every row of every summary, for this month and for last month alike, the
  percentage is undefined (null in the response) when the month has no snapshot, and is
  the present count divided by the snapshot total otherwise; with a total of zero it is
  therefore never 0. The total is the number of snapshots of the space within the bounds of
  the month named in the row, and the present count the number of joined presence rows of
  the member there.
\<close>

theorem pct_defined_iff_total_positive:
  assumes "r \<in> set (rows (summaryPayload e st ymc))"
  shows "pct (thisMonth r) =
           (if total_snapshots (thisMonth r) = 0 then None
            else Some (of_nat (present (thisMonth r)) / of_nat (total_snapshots (thisMonth r))))
     \<and> pct (lastMonth r) =
           (if total_snapshots (lastMonth r) = 0 then None
            else Some (of_nat (present (lastMonth r)) / of_nat (total_snapshots (lastMonth r))))
     \<and> total_snapshots (thisMonth r)
          = qTotalSnapshotsInRange st (monthBounds e (Some (ym (thisMonth r))))
              (VOICE_CHANNEL_ID e) (GUILD_ID e)
     \<and> total_snapshots (lastMonth r)
          = qTotalSnapshotsInRange st (monthBounds e (Some (ym (lastMonth r))))
              (VOICE_CHANNEL_ID e) (GUILD_ID e)
     \<and> present (thisMonth r)
          = count_list (joined_users st (monthBounds e (Some (ym (thisMonth r))))
              (VOICE_CHANNEL_ID e) (GUILD_ID e)) (userId r)
     \<and> present (lastMonth r)
          = count_list (joined_users st (monthBounds e (Some (ym (lastMonth r))))
              (VOICE_CHANNEL_ID e) (GUILD_ID e)) (userId r)
     \<and> ym (thisMonth r) = sum_ym (summaryPayload e st ymc)
     \<and> ym (lastMonth r) = sum_ymPrev (summaryPayload e st ymc)"
proof -
  from assms obtain m where
    r: "r = make_row (sum_ym (summaryPayload e st ymc)) (sum_ymPrev (summaryPayload e st ymc))
               (computeAttendance e st (Some (sum_ym (summaryPayload e st ymc))))
               (computeAttendance e st (Some (sum_ymPrev (summaryPayload e st ymc)))) m"
    by (rule row_of_summary)
  show ?thesis
    unfolding r make_row_fields computeAttendance_fields pct_of_def by simp
qed

theorem pct_defined_iff_total_positive_witness:
  "\<lparr>userId = ''1001'', name = ''Ann'', row_role = ''Raider'',
       thisMonth = \<lparr>ym = ''2024-07'', present = 0, total_snapshots = 0, pct = None\<rparr>,
       lastMonth = \<lparr>ym = ''2024-06'', present = 1, total_snapshots = 1, pct = Some 1\<rparr>,
       flags = \<lparr>under50 = False, under75 = False\<rparr>\<rparr>
     \<in> set (rows (summaryPayload utc_env store_june (Some ''2024-07'')))
   \<and> qTotalSnapshotsInRange store_june (monthBounds utc_env (Some ''2024-07''))
         (VOICE_CHANNEL_ID utc_env) (GUILD_ID utc_env) = 0
   \<and> qTotalSnapshotsInRange store_june (monthBounds utc_env (Some ''2024-06''))
         (VOICE_CHANNEL_ID utc_env) (GUILD_ID utc_env) = 1
   \<and> count_list (joined_users store_june (monthBounds utc_env (Some ''2024-06''))
         (VOICE_CHANNEL_ID utc_env) (GUILD_ID utc_env)) ''1001'' = 1"
proof -
  let ?r = "\<lparr>userId = ''1001'', name = ''Ann'', row_role = ''Raider'',
       thisMonth = \<lparr>ym = ''2024-07'', present = 0, total_snapshots = 0, pct = None\<rparr>,
       lastMonth = \<lparr>ym = ''2024-06'', present = 1, total_snapshots = 1, pct = Some 1\<rparr>,
       flags = \<lparr>under50 = False, under75 = False\<rparr>\<rparr>"
  have h: "?r \<in> set (rows (summaryPayload utc_env store_june (Some ''2024-07'')))"
    by (simp add: summary_june)
  note th = pct_defined_iff_total_positive[OF h]
  have a: "qTotalSnapshotsInRange store_june (monthBounds utc_env (Some ''2024-07''))
         (VOICE_CHANNEL_ID utc_env) (GUILD_ID utc_env) = 0"
    using th[THEN conjunct2, THEN conjunct2, THEN conjunct1] by simp
  have b: "qTotalSnapshotsInRange store_june (monthBounds utc_env (Some ''2024-06''))
         (VOICE_CHANNEL_ID utc_env) (GUILD_ID utc_env) = 1"
    using th[THEN conjunct2, THEN conjunct2, THEN conjunct2, THEN conjunct1] by simp
  have c: "count_list (joined_users store_june (monthBounds utc_env (Some ''2024-06''))
         (VOICE_CHANNEL_ID utc_env) (GUILD_ID utc_env)) ''1001'' = 1"
    using th[THEN conjunct2, THEN conjunct2, THEN conjunct2, THEN conjunct2, THEN conjunct2,
        THEN conjunct1] by simp
  show ?thesis
    using h a b c by blast
qed

section \<open>Lemmas: flags and percentages of a row\<close>

lemma pct_of_nonneg: "pct_of p t = Some q \<Longrightarrow> 0 \<le> q"
  by (auto simp: pct_of_def split: if_splits)

lemma row_flags:
  assumes "r \<in> set (rows (summaryPayload e st ymc))"
  shows "under50 (flags r) = is_below_half r"
    and "(under75 (flags r) \<and> \<not> under50 (flags r)) = is_between_half_and_three_quarters r"
    and "pct (thisMonth r) = Some q \<Longrightarrow> 0 \<le> q"
proof -
  from assms obtain m where
    r: "r = make_row (sum_ym (summaryPayload e st ymc)) (sum_ymPrev (summaryPayload e st ymc))
               (computeAttendance e st (Some (sum_ym (summaryPayload e st ymc))))
               (computeAttendance e st (Some (sum_ymPrev (summaryPayload e st ymc)))) m"
    by (rule row_of_summary)
  show "under50 (flags r) = is_below_half r"
    unfolding r make_row_fields(10) by (simp add: is_below_half_def pct_below_def)
  show "(under75 (flags r) \<and> \<not> under50 (flags r)) = is_between_half_and_three_quarters r"
    unfolding r make_row_fields(10,11)
    by (auto simp: is_between_half_and_three_quarters_def pct_below_def split: option.splits)
  show "pct (thisMonth r) = Some q \<Longrightarrow> 0 \<le> q"
    unfolding r make_row_fields(2) by (rule pct_of_nonneg)
qed

lemma name_in_filtered:
  assumes "inj_on name (set rs)" "r \<in> set rs"
  shows "(name r \<in> set (map name (filter P rs))) = P r"
proof
  assume "name r \<in> set (map name (filter P rs))"
  then obtain x where x: "x \<in> set rs" "P x" "name x = name r" by auto
  with assms have "x = r" by (auto dest: inj_onD)
  with x show "P r" by simp
next
  assume "P r"
  with assms(2) show "name r \<in> set (map name (filter P rs))" by auto
qed

lemma row_flag75:
  assumes "r \<in> set (rows (summaryPayload e st ymc))"
  shows "under75 (flags r) = (case pct (thisMonth r) of None \<Rightarrow> False | Some p \<Rightarrow> p < 3 / 4)"
proof -
  from assms obtain m where
    r: "r = make_row (sum_ym (summaryPayload e st ymc)) (sum_ymPrev (summaryPayload e st ymc))
               (computeAttendance e st (Some (sum_ym (summaryPayload e st ymc))))
               (computeAttendance e st (Some (sum_ymPrev (summaryPayload e st ymc)))) m"
    by (rule row_of_summary)
  show ?thesis
    unfolding r make_row_fields(11) by (simp add: pct_below_def)
qed

section \<open>The two threshold lists\<close>

text \<open>
  Claim C5, as amended. In every summary, \<open>below50\<close> holds, in the order of the rows, the
  names of exactly the rows whose percentage of this month is defined and below 0.5, and
  \<open>below75\<close> the names of exactly the rows whose percentage is defined, at least 0.5 and
  below 0.75. No row contributes to both lists, and a row contributes to one of them exactly
  when its percentage is defined and below 0.75; the two flags of a row say the same of its
  percentage. The lists hold display names: when the names of the rows are pairwise
  distinct, the lists have no name in common, and the name of a row is in a list exactly
  when the row meets the condition of the list.
\<close>

theorem threshold_lists_partition:
  "below50 (summaryPayload e st ymc)
     = map name (filter is_below_half (rows (summaryPayload e st ymc)))
   \<and> below75 (summaryPayload e st ymc)
     = map name (filter is_between_half_and_three_quarters (rows (summaryPayload e st ymc)))
   \<and> (\<forall>r. \<not> (is_below_half r \<and> is_between_half_and_three_quarters r))
   \<and> (\<forall>r. (is_below_half r \<or> is_between_half_and_three_quarters r)
          = (case pct (thisMonth r) of None \<Rightarrow> False | Some p \<Rightarrow> p < 3 / 4))
   \<and> (\<forall>r \<in> set (rows (summaryPayload e st ymc)).
          under50 (flags r) = is_below_half r
        \<and> under75 (flags r) = (is_below_half r \<or> is_between_half_and_three_quarters r))
   \<and> (distinct (map name (rows (summaryPayload e st ymc))) \<longrightarrow>
          set (below50 (summaryPayload e st ymc)) \<inter> set (below75 (summaryPayload e st ymc)) = {}
        \<and> (\<forall>r \<in> set (rows (summaryPayload e st ymc)).
              (name r \<in> set (below50 (summaryPayload e st ymc))) = is_below_half r
            \<and> (name r \<in> set (below75 (summaryPayload e st ymc)))
                = is_between_half_and_three_quarters r))"
proof -
  let ?rs = "rows (summaryPayload e st ymc)"
  have a: "filter (\<lambda>r. under50 (flags r)) ?rs = filter is_below_half ?rs"
    by (rule filter_cong) (simp_all add: row_flags(1))
  have b: "filter (\<lambda>r. under75 (flags r) \<and> \<not> under50 (flags r)) ?rs
             = filter is_between_half_and_three_quarters ?rs"
    by (rule filter_cong) (simp_all add: row_flags(2))
  have c: "\<not> (is_below_half r \<and> is_between_half_and_three_quarters r)" for r
    by (auto simp: is_below_half_def is_between_half_and_three_quarters_def split: option.splits)
  have d: "(is_below_half r \<or> is_between_half_and_three_quarters r)
          = (case pct (thisMonth r) of None \<Rightarrow> False | Some p \<Rightarrow> p < 3 / 4)" for r
    by (auto simp: is_below_half_def is_between_half_and_three_quarters_def split: option.splits)
  have l50: "below50 (summaryPayload e st ymc) = map name (filter is_below_half ?rs)"
    and l75: "below75 (summaryPayload e st ymc)
                = map name (filter is_between_half_and_three_quarters ?rs)"
    unfolding lists_summaryPayload a b by simp_all
  have f: "under50 (flags r) = is_below_half r
        \<and> under75 (flags r) = (is_below_half r \<or> is_between_half_and_three_quarters r)"
    if "r \<in> set ?rs" for r
    using row_flags(1)[OF that] row_flag75[OF that] d[of r] by simp
  have g: "set (below50 (summaryPayload e st ymc)) \<inter> set (below75 (summaryPayload e st ymc)) = {}
        \<and> (\<forall>r \<in> set ?rs.
              (name r \<in> set (below50 (summaryPayload e st ymc))) = is_below_half r
            \<and> (name r \<in> set (below75 (summaryPayload e st ymc)))
                = is_between_half_and_three_quarters r)"
    if dn: "distinct (map name ?rs)"
  proof -
    from dn have inj: "inj_on name (set ?rs)" by (simp add: distinct_map)
    have m: "(name r \<in> set (below50 (summaryPayload e st ymc))) = is_below_half r"
      "(name r \<in> set (below75 (summaryPayload e st ymc))) = is_between_half_and_three_quarters r"
      if "r \<in> set ?rs" for r
      unfolding l50 l75 using name_in_filtered[OF inj that] by blast+
    have "n \<notin> set (below75 (summaryPayload e st ymc))"
      if "n \<in> set (below50 (summaryPayload e st ymc))" for n
    proof -
      from that obtain r where r: "r \<in> set ?rs" "n = name r" unfolding l50 by auto
      with that m(1)[OF r(1)] have "is_below_half r" by simp
      with c[of r] m(2)[OF r(1)] r(2) show ?thesis by simp
    qed
    then have "set (below50 (summaryPayload e st ymc)) \<inter> set (below75 (summaryPayload e st ymc)) = {}"
      by blast
    with m show ?thesis by blast
  qed
  show ?thesis
    using l50 l75 c d f g by blast
qed

theorem threshold_lists_partition_witness:
  "below50 (summaryPayload utc_env store_july None) = [''bob'']
   \<and> below75 (summaryPayload utc_env store_july None) = [''Ann'']
   \<and> distinct (map name (rows (summaryPayload utc_env store_july None)))
   \<and> set (below50 (summaryPayload utc_env store_july None))
       \<inter> set (below75 (summaryPayload utc_env store_july None)) = {}
   \<and> is_between_half_and_three_quarters (example_row ''m1'' (Some (3 / 5)))
   \<and> \<not> is_below_half (example_row ''m1'' (Some (3 / 5)))
   \<and> is_below_half (example_row ''m2'' (Some (3 / 10)))
   \<and> \<not> is_between_half_and_three_quarters (example_row ''m2'' (Some (3 / 10)))
   \<and> \<not> is_below_half (example_row ''m3'' None)
   \<and> \<not> is_between_half_and_three_quarters (example_row ''m3'' None)"
proof -
  note th = threshold_lists_partition[of utc_env store_july None]
  have a: "below50 (summaryPayload utc_env store_july None) = [''bob'']"
    unfolding th[THEN conjunct1]
    by (simp add: summary_july is_below_half_def)
  have b: "below75 (summaryPayload utc_env store_july None) = [''Ann'']"
    unfolding th[THEN conjunct2, THEN conjunct1]
    by (simp add: summary_july is_between_half_and_three_quarters_def)
  have dn: "distinct (map name (rows (summaryPayload utc_env store_july None)))"
    by (simp add: summary_july)
  have e: "set (below50 (summaryPayload utc_env store_july None))
       \<inter> set (below75 (summaryPayload utc_env store_july None)) = {}"
    using th[THEN conjunct2, THEN conjunct2, THEN conjunct2, THEN conjunct2, THEN conjunct2,
        rule_format, OF dn] by blast
  have c: "is_between_half_and_three_quarters (example_row ''m1'' (Some (3 / 5)))"
    "is_below_half (example_row ''m2'' (Some (3 / 10)))"
    "\<not> is_below_half (example_row ''m3'' None)"
    "\<not> is_between_half_and_three_quarters (example_row ''m3'' None)"
    by (simp_all add: example_row_def is_below_half_def is_between_half_and_three_quarters_def)
  show ?thesis
    using a b dn e c th[THEN conjunct2, THEN conjunct2, THEN conjunct1] by blast
qed

text \<open>
  Claim C5 as stated calls the two lists mutually exclusive. They hold display names, and
  two members may show the same name: of two members called Bob, present in one and in two
  of three cycles, the first puts the name into \<open>below50\<close> and the second into \<open>below75\<close>.
\<close>

theorem threshold_lists_share_a_name:
  "reachable utc_env store_bobs
   \<and> below50 (summaryPayload utc_env store_bobs None) = [''Bob'']
   \<and> below75 (summaryPayload utc_env store_bobs None) = [''Bob'']"
proof -
  have r: "reachable utc_env store_bobs"
    unfolding store_bobs_def by (intro reachable.intros)
  have a: "below50 (summaryPayload utc_env store_bobs None) = [''Bob'']" by code_simp
  have b: "below75 (summaryPayload utc_env store_bobs None) = [''Bob'']" by code_simp
  show ?thesis using r a b by blast
qed

section \<open>The ranking\<close>

text \<open>
  Claim C4. The rows of every summary are in descending order of the percentage of this
  month, an undefined percentage counting as lower than every defined one, and they are the
  rows of the members, one each. Rows with the percentages 0.4, undefined and 0.9 are put
  in the order 0.9, 0.4, undefined.
\<close>

theorem rows_ranked:
  "sorted_wrt (\<lambda>a b. pct_ge (pct (thisMonth a)) (pct (thisMonth b))) (rows (summaryPayload e st ymc))
   \<and> mset (map userId (rows (summaryPayload e st ymc))) = mset (map user_id (members st))
   \<and> array_sort compareRows
        [example_row ''B'' (Some (2 / 5)), example_row ''C'' None, example_row ''A'' (Some (9 / 10))]
       = [example_row ''A'' (Some (9 / 10)), example_row ''B'' (Some (2 / 5)), example_row ''C'' None]"
proof -
  have key: "pct_ge (pct (thisMonth a)) (pct (thisMonth b))"
    if "a \<in> set (rows (summaryPayload e st ymc))" "b \<in> set (rows (summaryPayload e st ymc))"
      "pct_or_minus1 b \<le> pct_or_minus1 a" for a b
  proof (cases "pct (thisMonth a)")
    case None
    show ?thesis
    proof (cases "pct (thisMonth b)")
      case None
      with \<open>pct (thisMonth a) = None\<close> show ?thesis by simp
    next
      case (Some q)
      then have "0 \<le> q" using row_flags(3)[OF that(2)] by simp
      with that(3) None Some show ?thesis by (simp add: pct_or_minus1_def)
    qed
  next
    case (Some p)
    with that(3) show ?thesis
      by (cases "pct (thisMonth b)") (simp_all add: pct_or_minus1_def)
  qed
  have srt: "sorted_wrt (\<lambda>a b. pct_or_minus1 b \<le> pct_or_minus1 a) (rows (summaryPayload e st ymc))"
    unfolding rows_summaryPayload by (rule sorted_array_sort)
  have a: "sorted_wrt (\<lambda>a b. pct_ge (pct (thisMonth a)) (pct (thisMonth b)))
             (rows (summaryPayload e st ymc))"
    using srt by (rule sorted_wrt_mono_rel[rotated]) (rule key)
  have b: "mset (map userId (rows (summaryPayload e st ymc))) = mset (map user_id (members st))"
    unfolding rows_summaryPayload
    by (simp add: mset_array_sort qMembers_def multiset.map_comp comp_def make_row_fields(1))
  have c: "array_sort compareRows
        [example_row ''B'' (Some (2 / 5)), example_row ''C'' None, example_row ''A'' (Some (9 / 10))]
       = [example_row ''A'' (Some (9 / 10)), example_row ''B'' (Some (2 / 5)), example_row ''C'' None]"
    by (simp add: array_sort_def compareRows_def pct_or_minus1_def example_row_def)
  show ?thesis using a b c by blast
qed


theorem rows_ranked_witness:
  "map name (rows (summaryPayload utc_env store_july None)) = [''Ann'', ''bob'']
   \<and> map (\<lambda>r. pct (thisMonth r)) (rows (summaryPayload utc_env store_july None))
       = [Some (2 / 3), Some (1 / 3)]
   \<and> pct_ge (Some (2 / 3)) (Some (1 / 3))
   \<and> sorted_wrt (\<lambda>a b. pct_ge (pct (thisMonth a)) (pct (thisMonth b)))
        (rows (summaryPayload utc_env store_july None))"
  using rows_ranked[of utc_env store_july None, THEN conjunct1]
  by (simp add: summary_july)

section \<open>Lemmas: month keys are read back as written\<close>

lemma digit_of_nth: "d < 10 \<Longrightarrow> digit_of (''0123456789'' ! d) = Some d"
proof -
  assume "d < 10"
  then have "d \<in> {0, 1, 2, 3, 4, 5, 6, 7, 8, 9}" by auto
  then show ?thesis by (auto simp: digit_of_def)
qed

lemma number_of_digits_value: "number_of s = int (digits_value s)"
  by (simp add: number_of_def digits_value_def)

lemma digits_value_snoc:
  "digits_value (s @ [c]) = 10 * digits_value s + (case digit_of c of None \<Rightarrow> 0 | Some d \<Rightarrow> d)"
  by (simp add: digits_value_def)

lemma digits_value_show_nat: "digits_value (show_nat n) = n"
proof (induction n rule: show_nat.induct)
  case (1 n)
  show ?case
  proof (cases "n < 10")
    case True
    then show ?thesis
      using digits_value_snoc[of "[]" "''0123456789'' ! n"]
      by (simp add: show_nat.simps[of n] digit_of_nth) (simp add: digits_value_def)
  next
    case False
    have "n mod 10 < 10" by simp
    then have d: "digit_of (''0123456789'' ! (n mod 10)) = Some (n mod 10)" by (rule digit_of_nth)
    from False 1 have ih: "digits_value (show_nat (n div 10)) = n div 10" by simp
    have "show_nat n = show_nat (n div 10) @ [''0123456789'' ! (n mod 10)]"
      using False by (simp add: show_nat.simps[of n])
    then show ?thesis
      by (simp add: digits_value_snoc d ih)
  qed
qed

lemma digits_show_nat: "list_all is_digit (show_nat n)"
proof (induction n rule: show_nat.induct)
  case (1 n)
  have "n mod 10 < 10" by simp
  then have d: "is_digit (''0123456789'' ! (n mod 10))"
    unfolding is_digit_def by (simp only: digit_of_nth) simp
  show ?case
  proof (cases "n < 10")
    case True
    with d show ?thesis by (simp add: show_nat.simps[of n])
  next
    case False
    with 1 d show ?thesis by (simp add: show_nat.simps[of n])
  qed
qed

lemma length_show_nat: "0 < k \<Longrightarrow> n < 10 ^ k \<Longrightarrow> length (show_nat n) \<le> k"
proof (induction n arbitrary: k rule: show_nat.induct)
  case (1 n)
  show ?case
  proof (cases "n < 10")
    case True
    with "1.prems" show ?thesis by (simp add: show_nat.simps[of n])
  next
    case False
    obtain j where k: "k = Suc j" using "1.prems"(1) by (cases k) auto
    have "j \<noteq> 0" using False "1.prems"(2) k by (cases j) auto
    then have j: "0 < j" by simp
    have "n div 10 < 10 ^ j" using "1.prems"(2) k by (simp add: less_mult_imp_div_less mult.commute)
    with "1.IH"[OF False j] have "length (show_nat (n div 10)) \<le> j" by simp
    with False k show ?thesis by (simp add: show_nat.simps[of n])
  qed
qed

lemma digits_value_pad: "digits_value (padStart k s) = digits_value s"
proof -
  have "foldl (\<lambda>n c. 10 * n + (case digit_of c of None \<Rightarrow> 0 | Some d \<Rightarrow> d)) 0 (replicate j CHR ''0'' @ s)
        = foldl (\<lambda>n c. 10 * n + (case digit_of c of None \<Rightarrow> 0 | Some d \<Rightarrow> d)) 0 s" for j
    by (induction j) (simp_all add: digit_of_def)
  then show ?thesis by (simp add: digits_value_def padStart_def)
qed

lemma digits_pad: "list_all is_digit s \<Longrightarrow> list_all is_digit (padStart k s)"
proof -
  have z: "is_digit CHR ''0''" by (simp add: is_digit_def digit_of_def)
  assume "list_all is_digit s"
  then show ?thesis by (auto simp: padStart_def list_all_iff z)
qed

lemma length_pad: "length s \<le> k \<Longrightarrow> length (padStart k s) = k"
  by (simp add: padStart_def)

lemma show_int_nat: "show_int (int n) = show_nat n"
  by (simp add: show_int_def)

lemma key_shape:
  assumes "length Y = 4" "length M = 2"
  shows "length ((Y @ ''-'' @ M) @ ''-01'') = 10"
    and "take 4 ((Y @ ''-'' @ M) @ ''-01'') = Y"
    and "((Y @ ''-'' @ M) @ ''-01'') ! 4 = CHR ''-''"
    and "take 2 (drop 5 ((Y @ ''-'' @ M) @ ''-01'')) = M"
    and "drop 7 ((Y @ ''-'' @ M) @ ''-01'') = ''-01''"
  using assms by (simp_all add: nth_append)

lemma dayjs_parse_month_key:
  assumes "y \<le> 9999" "m \<le> 99"
  shows "dayjs_parse e (month_key y m @ ''-01'') = Some (MakeDay (MakeFullYear (int y)) (int m - 1))"
proof -
  let ?Y = "padStart 4 (show_nat y)" and ?M = "padStart 2 (show_nat m)"
  have ly: "length ?Y = 4"
    using length_show_nat[of 4 y] assms(1) by (simp add: length_pad)
  have lm: "length ?M = 2"
    using length_show_nat[of 2 m] assms(2) by (simp add: length_pad)
  have dy: "list_all is_digit ?Y" and dm: "list_all is_digit ?M"
    by (simp_all add: digits_pad digits_show_nat)
  have ny: "number_of ?Y = int y" and nm: "number_of ?M = int m"
    by (simp_all add: number_of_digits_value digits_value_pad digits_value_show_nat)
  note sh = key_shape[OF ly lm]
  show ?thesis
    unfolding dayjs_parse_def month_key_def sh
    using dy dm ny nm by simp
qed

lemma truthy_month_key: "truthy (Some (month_key y m))"
  by (simp add: truthy_def month_key_def)

lemma format_nat: "format_YYYY_MM (Some (int y, int m - 1)) = month_key y m"
  using show_int_nat[of m] by (simp add: format_YYYY_MM_def month_key_def show_int_nat)

section \<open>The previous month\<close>

text \<open>
  Claim C6, as amended. For a year from 0100 to 9999 and a month from 01 to 12,
  \<open>lastMonthYM\<close> of the key \<^verbatim>\<open>YYYY-MM\<close> is the key of the month before: December of the year
  before for January, and the month before in the same year otherwise. So
  \<^verbatim>\<open>2024-01\<close> gives \<^verbatim>\<open>2023-12\<close> and \<^verbatim>\<open>2024-07\<close> gives \<^verbatim>\<open>2024-06\<close>.
\<close>

theorem lastMonthYM_previous_month:
  assumes "100 \<le> y" "y \<le> 9999" "1 \<le> m" "m \<le> 12"
  shows "lastMonthYM e (Some (month_key y m))
           = (if m = 1 then month_key (y - 1) 12 else month_key y (m - 1))"
proof -
  have base: "base_of e (Some (month_key y m)) = Some (int y, int m - 1)"
    using assms dayjs_parse_month_key[of y m e]
    by (simp add: base_of_def truthy_month_key MakeFullYear_def MakeDay_def)
  have step: "lastMonthYM e (Some (month_key y m))
                = format_YYYY_MM (subtract_month (Some (int y, int m - 1)))"
    by (simp only: lastMonthYM_def base)
  show ?thesis
  proof (cases "m = 1")
    case True
    have "subtract_month (Some (int y, int m - 1)) = Some (int (y - 1), int 12 - 1)"
      using True assms(1) by (simp add: subtract_month_def MakeDay_def)
    then have "lastMonthYM e (Some (month_key y m)) = month_key (y - 1) 12"
      unfolding step by (simp only: format_nat)
    with True show ?thesis by simp
  next
    case False
    then have "subtract_month (Some (int y, int m - 1)) = Some (int y, int (m - 1) - 1)"
      using assms(3,4) by (simp add: subtract_month_def MakeDay_def)
    then have "lastMonthYM e (Some (month_key y m)) = month_key y (m - 1)"
      unfolding step by (simp only: format_nat)
    with False show ?thesis by simp
  qed
qed

lemma month_key_examples:
  "month_key 2024 1 = ''2024-01''" "month_key 2023 12 = ''2023-12''"
  "month_key 2024 7 = ''2024-07''" "month_key 2024 6 = ''2024-06''"
  "month_key 50 3 = ''0050-03''" "month_key 50 2 = ''0050-02''"
  by code_simp+

theorem lastMonthYM_previous_month_witness:
  "(100::nat) \<le> 2024 \<and> (2024::nat) \<le> 9999 \<and> (1::nat) \<le> 1 \<and> (7::nat) \<le> 12
   \<and> lastMonthYM utc_env (Some ''2024-01'') = ''2023-12''
   \<and> lastMonthYM utc_env (Some ''2024-07'') = ''2024-06''"
proof -
  have h: "(100::nat) \<le> 2024" "(2024::nat) \<le> 9999" by simp_all
  have h1: "(1::nat) \<le> 1" "(1::nat) \<le> 12" by simp_all
  have h7: "(1::nat) \<le> 7" "(7::nat) \<le> 12" by simp_all
  have e: "(2024::nat) - 1 = 2023" "(7::nat) - 1 = 6" "((7::nat) = 1) = False" by simp_all
  have a: "lastMonthYM utc_env (Some ''2024-01'') = ''2023-12''"
    using lastMonthYM_previous_month[OF h h1, of utc_env]
    by (simp only: month_key_examples e if_True simp_thms)
  have b: "lastMonthYM utc_env (Some ''2024-07'') = ''2024-06''"
    using lastMonthYM_previous_month[OF h h7, of utc_env]
    by (simp only: month_key_examples e if_False simp_thms)
  show ?thesis using a b by simp
qed

text \<open>
  Claim C6 as stated, for every year-month string, fails below the year 0100: the year of
  \<^verbatim>\<open>0050-03\<close> reaches the Date constructor as 50, which it reads as 1950.
\<close>

theorem lastMonthYM_two_digit_year:
  "month_key 50 3 = ''0050-03'' \<and> month_key 50 2 = ''0050-02''
   \<and> lastMonthYM utc_env (Some ''0050-03'') = ''1950-02''"
  by code_simp

section \<open>Lemmas: the role update\<close>


lemma update_role_tables [simp]:
  "snapshots (update_role st r u) = snapshots st"
  "presence (update_role st r u) = presence st"
  "seq (update_role st r u) = seq st"
  by (simp_all add: update_role_def)



section \<open>The role request\<close>




section \<open>The month parameter\<close>

text \<open>
  Claim C9, as amended. A month parameter that is empty or only white space gives the
  response of the request without the parameter, which is the summary of the current
  month. Every other value, of the form \<^verbatim>\<open>YYYY-MM\<close> or not, is trimmed and used as the
  month: the response is the summary for that string and carries it as \<^verbatim>\<open>ym\<close>.
\<close>

theorem month_parameter_used_as_given:
  "api_summary e st None = summaryPayload e st None
   \<and> (trim s = [] \<longrightarrow> api_summary e st (Some s) = api_summary e st None)
   \<and> (trim s \<noteq> [] \<longrightarrow>
        api_summary e st (Some s) = summaryPayload e st (Some (trim s))
        \<and> sum_ym (api_summary e st (Some s)) = trim s)"
  by (simp add: api_summary_def trim_def Let_def) (simp add: summaryPayload_def Let_def truthy_def)

theorem month_parameter_used_as_given_witness:
  "trim ''  '' = [] \<and> trim '' 2024-06 '' = ''2024-06''
   \<and> api_summary utc_env store_july (Some ''  '') = api_summary utc_env store_july None
   \<and> api_summary utc_env store_july (Some '' 2024-06 '')
       = summaryPayload utc_env store_july (Some ''2024-06'')
   \<and> sum_ym (api_summary utc_env store_july (Some '' 2024-06 '')) = ''2024-06''"
proof -
  have t: "trim ''  '' = []" "trim '' 2024-06 '' = ''2024-06''"
    by (simp_all add: trim_def is_space_def)
  have n: "trim '' 2024-06 '' \<noteq> []" by (simp add: t)
  note a = month_parameter_used_as_given[of utc_env store_july "''  ''",
      THEN conjunct2, THEN conjunct1, rule_format, OF t(1)]
  note b = month_parameter_used_as_given[of utc_env store_july "'' 2024-06 ''",
      THEN conjunct2, THEN conjunct2, rule_format, OF n, unfolded t]
  show ?thesis
    using t a b by blast
qed

text \<open>
  Claim C9 as stated says that a value not of the form \<^verbatim>\<open>YYYY-MM\<close> gives the response of
  the request without the parameter; for \<^verbatim>\<open>July\<close> the two responses differ already in
  \<^verbatim>\<open>ym\<close>.
\<close>

theorem malformed_month_not_treated_as_absent:
  "sum_ym (api_summary utc_env store_july (Some ''July'')) = ''July''
   \<and> sum_ym (api_summary utc_env store_july None) = ''2024-07''
   \<and> api_summary utc_env store_july (Some ''July'') \<noteq> api_summary utc_env store_july None"
proof -
  have a: "sum_ym (api_summary utc_env store_july (Some ''July'')) = ''July''"
    by (simp add: api_summary_def trim_def is_space_def Let_def summaryPayload_def truthy_def)
  have b: "sum_ym (api_summary utc_env store_july None) = ''2024-07''"
    by (simp add: api_summary_def trim_def Let_def summaryPayload_def truthy_def now_july)
  have "sum_ym (api_summary utc_env store_july (Some ''July''))
          \<noteq> sum_ym (api_summary utc_env store_july None)"
    unfolding a b by simp
  then have "api_summary utc_env store_july (Some ''July'') \<noteq> api_summary utc_env store_july None"
    by metis
  with a b show ?thesis by blast
qed

end
